theory Spec2Isabelle
  imports Complex_Main "HOL-Library.Multiset"
begin

section \<open>Reduced-order splines: the greedy knot selection of \<^verbatim>\<open>greedy.py\<close>\<close>

text \<open>
  The development embeds the module-level functions \<^verbatim>\<open>_seed\<close> and \<^verbatim>\<open>_greedy\<close> and the
  methods \<^verbatim>\<open>__init__\<close>, \<^verbatim>\<open>greedy\<close> and \<^verbatim>\<open>verify\<close> of the class
  \<^verbatim>\<open>ReducedOrderSpline\<close>. An Isabelle name cannot begin with an underscore, so
  \<^verbatim>\<open>_seed\<close> is \<open>u_seed\<close> and \<^verbatim>\<open>_greedy\<close> is \<open>u_greedy\<close>.

  Python integers are \<open>int\<close>. The arrays of double precision numbers are lists of
  \<open>real\<close>: rounding, infinities and NaN are outside the model. The spline fitter
  \<^verbatim>\<open>UnivariateSpline(xs, ys, k=deg, s=0)\<close> of SciPy is not part of the repository; it is
  a parameter \<open>fit\<close> of every function that calls it, and it may fail.
\<close>

subsection \<open>Errors\<close>

datatype error =
    SizesNotEqual       \<comment> \<open>\<^verbatim>\<open>assert len(x) == len(y), "Array sizes must be equal."\<close>\<close>
  | AllSamplesZero      \<comment> \<open>\<^verbatim>\<open>assert ymax > 0., "All data samples are zero."\<close>\<close>
  | NoSpline            \<comment> \<open>\<^verbatim>\<open>raise Exception, "No spline interpolant to compare against. ..."\<close>\<close>
  | IndexError          \<comment> \<open>NumPy: an index outside \<open>-n \<le> i < n\<close>\<close>
  | ValueError          \<comment> \<open>NumPy: maximum of an empty array, shapes that do not broadcast\<close>
  | ZeroDivisionError   \<comment> \<open>Python: float division by zero\<close>
  | AttributeError      \<comment> \<open>Python: reading an attribute that was never set\<close>
  | FitError            \<comment> \<open>whatever the spline fitter raises\<close>

type_synonym spline = "real \<Rightarrow> real"
type_synonym fitter = "real list \<Rightarrow> real list \<Rightarrow> int \<Rightarrow> spline option"

definition bind_err :: "error + 'a \<Rightarrow> ('a \<Rightarrow> error + 'b) \<Rightarrow> error + 'b" where
  "bind_err r f = (case r of Inl e \<Rightarrow> Inl e | Inr v \<Rightarrow> f v)"

subsection \<open>The NumPy operations the code calls\<close>

text \<open>\<^verbatim>\<open>a[idx]\<close> with an integer array \<open>idx\<close>: a negative index counts from the end, an
  index outside \<open>-n \<le> i < n\<close> raises.\<close>

definition np_take :: "'a list \<Rightarrow> int list \<Rightarrow> error + 'a list" where
  "np_take a idx =
     (let n = int (length a) in
      if list_all (\<lambda>i. - n \<le> i \<and> i < n) idx
      then Inr (map (\<lambda>i. a ! nat (if i < 0 then n + i else i)) idx)
      else Inl IndexError)"

text \<open>\<^verbatim>\<open>np.max(a)\<close>: raises on an empty array.\<close>

definition np_max :: "real list \<Rightarrow> error + real" where
  "np_max a = (case a of [] \<Rightarrow> Inl ValueError | v # vs \<Rightarrow> Inr (fold max vs v))"

text \<open>\<^verbatim>\<open>np.argmax(a)\<close>: one scan from the left that moves to a later entry only when
  it is strictly larger; raises on an empty array.\<close>

fun argmax_scan :: "real list \<Rightarrow> nat \<Rightarrow> real \<Rightarrow> nat \<Rightarrow> nat" where
  "argmax_scan [] i mp idx = idx"
| "argmax_scan (v # vs) i mp idx =
     (if v > mp then argmax_scan vs (Suc i) v i else argmax_scan vs (Suc i) mp idx)"

definition np_argmax :: "real list \<Rightarrow> error + nat" where
  "np_argmax a = (case a of [] \<Rightarrow> Inl ValueError | v # vs \<Rightarrow> Inr (argmax_scan vs 1 v 0))"

text \<open>An elementwise binary operation on two one-dimensional arrays: equal lengths, or
  one of them of length one (broadcast); otherwise NumPy raises.\<close>

definition np_binop :: "(real \<Rightarrow> real \<Rightarrow> real) \<Rightarrow> real list \<Rightarrow> real list \<Rightarrow> error + real list" where
  "np_binop f a b =
     (if length a = length b then Inr (map2 f a b)
      else if length a = 1 then Inr (map (f (hd a)) b)
      else if length b = 1 then Inr (map (\<lambda>u. f u (hd b)) a)
      else Inl ValueError)"

subsection \<open>\<^verbatim>\<open>_seed\<close>\<close>

text \<open>\<^verbatim>\<open>f = lambda m, n: [ii*n//m + n//(2*m) for ii in range(m)]\<close>. Python's \<^verbatim>\<open>//\<close> on
  integers is floor division, which is \<open>div\<close> on \<open>int\<close>; \<^verbatim>\<open>range(m)\<close> is empty for
  \<open>m \<le> 0\<close>, so no division by zero is ever evaluated.\<close>

definition seed_f :: "int \<Rightarrow> int \<Rightarrow> int list" where
  "seed_f m n = map (\<lambda>ii. ii * n div m + n div (2 * m)) [0..m - 1]"

definition u_seed :: "'a list \<Rightarrow> int \<Rightarrow> int list option \<Rightarrow> int list \<times> real list" where
  "u_seed x deg seeds =
     (let indices = (case seeds of
                       None \<Rightarrow> sort ([0, int (length x) - 1] @ seed_f (deg - 1) (int (length x)))
                     | Some s \<Rightarrow> s);
          errors = []
      in (indices, errors))"

subsection \<open>\<^verbatim>\<open>_greedy\<close>\<close>

text \<open>The variables of the \<^verbatim>\<open>while\<close> loop.\<close>

record greedy_state =
  flag :: int
  ctr :: int
  indices :: "int list"
  args :: "int list"
  errors :: "real list"

text \<open>\<^verbatim>\<open>UnivariateSpline(x[indices], y[indices], k=deg, s=0)\<close>\<close>

definition fit_knots :: "fitter \<Rightarrow> real list \<Rightarrow> real list \<Rightarrow> int \<Rightarrow> int list \<Rightarrow> error + spline" where
  "fit_knots fit x y deg idx =
     bind_err (np_take x idx) (\<lambda>xs.
     bind_err (np_take y idx) (\<lambda>ys.
     case fit xs ys deg of None \<Rightarrow> Inl FitError | Some s \<Rightarrow> Inr s))"

text \<open>\<^verbatim>\<open>np.abs( s(x)-y )\<close>\<close>

definition abs_errs :: "spline \<Rightarrow> real list \<Rightarrow> real list \<Rightarrow> error + real list" where
  "abs_errs s x y = bind_err (np_binop (\<lambda>u v. u - v) (map s x) y) (\<lambda>d. Inr (map abs d))"

text \<open>One pass through the body of the loop (lines 375 to 400), from the fit to
  \<^verbatim>\<open>ctr += 1\<close>.\<close>

definition greedy_body :: "fitter \<Rightarrow> real list \<Rightarrow> real list \<Rightarrow> int \<Rightarrow> real \<Rightarrow> greedy_state \<Rightarrow> error + greedy_state" where
  "greedy_body fit x y deg tol st =
     bind_err (fit_knots fit x y deg (indices st)) (\<lambda>s.
     bind_err (abs_errs s x y) (\<lambda>errs.
     bind_err (np_argmax errs) (\<lambda>imax.
       let errors1 = errors st @ [errs ! imax];
           args1 = args st @ [int imax];
           indices1 = sort (indices st @ [int imax])
       in Inr (if last errors1 < tol
               then \<lparr>flag = 1, ctr = ctr st + 1, indices = sort (butlast args1),
                     args = butlast args1, errors = butlast errors1\<rparr>
               else \<lparr>flag = flag st, ctr = ctr st + 1, indices = indices1,
                     args = args1, errors = errors1\<rparr>))))"

text \<open>\<^verbatim>\<open>while flag == 0 and ctr < len(x): ...\<close>\<close>

function greedy_loop :: "fitter \<Rightarrow> real list \<Rightarrow> real list \<Rightarrow> int \<Rightarrow> real \<Rightarrow> greedy_state \<Rightarrow> error + greedy_state" where
  "greedy_loop fit x y deg tol st =
     (if flag st = 0 \<and> ctr st < int (length x)
      then (case greedy_body fit x y deg tol st of
              Inl e \<Rightarrow> Inl e
            | Inr st' \<Rightarrow> greedy_loop fit x y deg tol st')
      else Inr st)"
  by pat_completeness auto
termination
  by (relation "measure (\<lambda>(fit, x, y, deg, tol, st). nat (int (length x) - ctr st))")
     (auto simp: greedy_body_def bind_err_def Let_def split: sum.splits if_splits)

declare greedy_loop.simps [simp del]

text \<open>The effective tolerance: lines 361 to 366.\<close>

definition effective_tol :: "real list \<Rightarrow> real \<Rightarrow> bool \<Rightarrow> error + real" where
  "effective_tol y tol rel =
     bind_err (if rel
               then bind_err (np_max (map abs y)) (\<lambda>ymax.
                      if ymax > 0 then Inr ymax else Inl AllSamplesZero)
               else Inr 1) (\<lambda>ymax.
     Inr (tol * ymax))"

text \<open>The state in which the loop is entered: lines 369 to 373.\<close>

definition greedy_start :: "real list \<Rightarrow> int \<Rightarrow> int list option \<Rightarrow> greedy_state" where
  "greedy_start x deg seeds =
     (let (indices0, errors0) = u_seed x deg seeds;
          args0 = indices0
      in \<lparr>flag = 0, ctr = int (length indices0) + 1, indices = indices0,
          args = args0, errors = errors0\<rparr>)"

text \<open>\<^verbatim>\<open>_greedy\<close> returns \<^verbatim>\<open>spline, indices, args, errors, _tol\<close>.\<close>

definition u_greedy :: "fitter \<Rightarrow> real list \<Rightarrow> real list \<Rightarrow> real \<Rightarrow> bool \<Rightarrow> int \<Rightarrow> int list option
    \<Rightarrow> error + (spline \<times> int list \<times> int list \<times> real list \<times> real)" where
  "u_greedy fit x y tol rel deg seeds =
     bind_err (effective_tol y tol rel) (\<lambda>tol'.
     bind_err (greedy_loop fit x y deg tol' (greedy_start x deg seeds)) (\<lambda>st.
     bind_err (fit_knots fit x y deg (indices st)) (\<lambda>s.
     Inr (s, indices st, args st, errors st, tol'))))"

subsection \<open>The class \<^verbatim>\<open>ReducedOrderSpline\<close>\<close>

text \<open>The attributes of an object. \<^verbatim>\<open>__init__\<close> sets \<^verbatim>\<open>_deg\<close>, \<^verbatim>\<open>_rel\<close> and
  \<^verbatim>\<open>_made\<close> only; an attribute that has not been set yet is \<open>None\<close>.\<close>

record ros =
  ros_deg :: int                        \<comment> \<open>\<^verbatim>\<open>_deg\<close>\<close>
  ros_rel :: bool                       \<comment> \<open>\<^verbatim>\<open>_rel\<close>\<close>
  ros_made :: bool                      \<comment> \<open>\<^verbatim>\<open>_made\<close>\<close>
  ros_tol_in :: "real option"           \<comment> \<open>\<^verbatim>\<open>_tol\<close>, the tolerance as given\<close>
  ros_spline :: "spline option"         \<comment> \<open>\<^verbatim>\<open>_spline\<close>\<close>
  ros_indices :: "int list option"
  ros_args :: "int list option"
  ros_errors :: "real list option"
  ros_tol :: "real option"              \<comment> \<open>\<^verbatim>\<open>tol\<close>, the effective tolerance\<close>
  ros_X :: "real list option"
  ros_Y :: "real list option"
  ros_size :: "int option"
  ros_compression :: "real option"

text \<open>The method \<^verbatim>\<open>greedy\<close> (lines 75 to 97). It repeats the check of the relative
  mode, calls \<^verbatim>\<open>_seed\<close> and drops what it returns, and calls \<^verbatim>\<open>_greedy\<close>. The
  parameter \<^verbatim>\<open>verbose\<close> only prints and is left out.\<close>

definition greedy :: "fitter \<Rightarrow> ros \<Rightarrow> real list \<Rightarrow> real list \<Rightarrow> real \<Rightarrow> bool \<Rightarrow> int \<Rightarrow> int list option
    \<Rightarrow> error + ros" where
  "greedy fit self x y tol rel deg seeds =
     bind_err (if rel
               then bind_err (np_max (map abs y)) (\<lambda>ymax.
                      if ymax > 0 then Inr ymax else Inl AllSamplesZero)
               else Inr 1) (\<lambda>ymax.
     let dropped = u_seed x deg seeds in
     bind_err (u_greedy fit x y tol rel deg seeds) (\<lambda>(s, indices', args', errors', tol').
     bind_err (np_take x indices') (\<lambda>X.
     bind_err (np_take y indices') (\<lambda>Y.
     let size = int (length indices') in
     if size = 0 then Inl ZeroDivisionError
     else Inr (self\<lparr>ros_deg := deg, ros_rel := rel, ros_made := True, ros_tol_in := Some tol,
                    ros_spline := Some s, ros_indices := Some indices', ros_args := Some args',
                    ros_errors := Some errors', ros_tol := Some tol',
                    ros_X := Some X, ros_Y := Some Y, ros_size := Some size,
                    ros_compression := Some (real (length y) / real_of_int size)\<rparr>)))))"

text \<open>\<^verbatim>\<open>__init__\<close> (lines 15 to 24); \<open>None\<close> for \<open>x\<close> or \<open>y\<close> is Python's \<^verbatim>\<open>None\<close>.
  The object after lines 15 to 17 is \<open>blank deg rel\<close>.\<close>

definition blank :: "int \<Rightarrow> bool \<Rightarrow> ros" where
  "blank deg rel =
     \<lparr>ros_deg = deg, ros_rel = rel, ros_made = False, ros_tol_in = None,
      ros_spline = None, ros_indices = None, ros_args = None, ros_errors = None,
      ros_tol = None, ros_X = None, ros_Y = None, ros_size = None,
      ros_compression = None\<rparr>"

definition init :: "fitter \<Rightarrow> real list option \<Rightarrow> real list option \<Rightarrow> int \<Rightarrow> real \<Rightarrow> bool \<Rightarrow> int list option
    \<Rightarrow> error + ros" where
  "init fit x y deg tol rel seeds =
     (let self = blank deg rel
      in case y of
           None \<Rightarrow> Inr self
         | Some yv \<Rightarrow>
             (let xv = (case x of None \<Rightarrow> map real [0..<length yv] | Some xv \<Rightarrow> xv)
              in if length xv = length yv
                 then greedy fit self xv yv tol rel deg seeds
                 else Inl SizesNotEqual))"

text \<open>\<^verbatim>\<open>verify\<close> (lines 106 to 114) prints a truth value and returns the array
  \<^verbatim>\<open>errors\<close>; the model returns both.\<close>

definition verify :: "ros \<Rightarrow> real list \<Rightarrow> real list \<Rightarrow> error + (bool \<times> real list)" where
  "verify self x y =
     (if ros_made self
      then (case ros_spline self of
              None \<Rightarrow> Inl AttributeError
            | Some s \<Rightarrow>
                bind_err (np_binop (\<lambda>u v. u - v) y (map s x)) (\<lambda>errors'.
                case ros_tol self of
                  None \<Rightarrow> Inl AttributeError
                | Some t \<Rightarrow> Inr (list_all (\<lambda>e. e \<le> t) (map abs errors'), errors')))
      else Inl NoSpline)"

subsection \<open>A fitter to run the model with\<close>

text \<open>The statements below are about every fitter, and say so where they assume
  something of it. To evaluate the functions on concrete data one fitter is needed: the
  interpolant that is linear between neighbouring knots. Like SciPy's it wants more knots
  than the degree and strictly increasing abscissas.\<close>

fun pw_linear :: "(real \<times> real) list \<Rightarrow> real \<Rightarrow> real" where
  "pw_linear [] t = 0"
| "pw_linear [(a, u)] t = u"
| "pw_linear ((a, u) # (b, v) # ps) t =
     (if t \<le> b \<or> ps = [] then u + (v - u) * (t - a) / (b - a)
      else pw_linear ((b, v) # ps) t)"

definition linear_fit :: fitter where
  "linear_fit xs ys k =
     (if length xs = length ys \<and> k < int (length xs) \<and> sorted_wrt (<) xs
      then Some (pw_linear (zip xs ys)) else None)"

subsection \<open>The states the loop passes through\<close>

text \<open>\<open>greedy_reach fit x y deg tol st0 st\<close>: started in \<open>st0\<close>, the loop is at
  its head in state \<open>st\<close> after some number of passes through its body.\<close>

inductive greedy_reach :: "fitter \<Rightarrow> real list \<Rightarrow> real list \<Rightarrow> int \<Rightarrow> real \<Rightarrow> greedy_state \<Rightarrow> greedy_state \<Rightarrow> bool"
  for fit x y deg tol st0 where
    reach_start: "greedy_reach fit x y deg tol st0 st0"
  | reach_pass: "greedy_reach fit x y deg tol st0 st \<Longrightarrow> flag st = 0 \<Longrightarrow> ctr st < int (length x)
       \<Longrightarrow> greedy_body fit x y deg tol st = Inr st' \<Longrightarrow> greedy_reach fit x y deg tol st0 st'"

subsection \<open>What the fitter is expected to do\<close>

text \<open>The fitter is outside the repository. Two properties of an interpolating spline
  fitter with zero smoothing are named here, to be assumed where a statement needs them:
  the interpolant it returns passes through every knot it was given, and it accepts
  strictly increasing abscissas when there are more of them than the degree.\<close>

definition interpolates :: "fitter \<Rightarrow> bool" where
  "interpolates fit \<longleftrightarrow>
     (\<forall>xs ys deg s. fit xs ys deg = Some s \<longrightarrow>
        (\<forall>j. j < length xs \<and> j < length ys \<longrightarrow> s (xs ! j) = ys ! j))"

definition accepts_increasing :: "fitter \<Rightarrow> int \<Rightarrow> bool" where
  "accepts_increasing fit deg \<longleftrightarrow>
     (\<forall>xs ys. length xs = length ys \<and> deg < int (length xs) \<and> sorted_wrt (<) xs
        \<longrightarrow> fit xs ys deg \<noteq> None)"

section \<open>Properties\<close>

subsection \<open>Sequencing of fallible steps\<close>

lemma bind_err_Inr_iff: "bind_err r f = Inr v \<longleftrightarrow> (\<exists>u. r = Inr u \<and> f u = Inr v)"
  by (cases r) (simp_all add: bind_err_def)

lemma bind_err_simps: "bind_err (Inl e) f = Inl e" "bind_err (Inr u) f = f u"
  by (simp_all add: bind_err_def)

lemma bind_err_InlD: "bind_err r f = Inl e \<Longrightarrow> r = Inl e \<or> (\<exists>u. r = Inr u \<and> f u = Inl e)"
  by (cases r) (simp_all add: bind_err_def)

subsection \<open>The scan of \<open>np_argmax\<close> finds the first maximum\<close>

lemma argmax_scan_props:
  assumes "length pre = i" "idx < i" "pre ! idx = mp" "\<forall>j<i. pre ! j \<le> mp" "\<forall>j<idx. pre ! j < mp"
  shows "argmax_scan vs i mp idx < i + length vs
       \<and> (\<forall>j < i + length vs. (pre @ vs) ! j \<le> (pre @ vs) ! argmax_scan vs i mp idx)
       \<and> (\<forall>j < argmax_scan vs i mp idx. (pre @ vs) ! j < (pre @ vs) ! argmax_scan vs i mp idx)"
  using assms
proof (induction vs arbitrary: pre i mp idx)
  case Nil
  then show ?case by simp
next
  case (Cons v vs)
  show ?case
  proof (cases "v > mp")
    case True
    have "argmax_scan vs (Suc i) v i < Suc i + length vs
       \<and> (\<forall>j < Suc i + length vs. ((pre @ [v]) @ vs) ! j \<le> ((pre @ [v]) @ vs) ! argmax_scan vs (Suc i) v i)
       \<and> (\<forall>j < argmax_scan vs (Suc i) v i. ((pre @ [v]) @ vs) ! j < ((pre @ [v]) @ vs) ! argmax_scan vs (Suc i) v i)"
    proof (rule Cons.IH)
      show "length (pre @ [v]) = Suc i" using Cons.prems by simp
      show "i < Suc i" by simp
      show "(pre @ [v]) ! i = v" using Cons.prems by (simp add: nth_append)
      show "\<forall>j<Suc i. (pre @ [v]) ! j \<le> v"
        using Cons.prems True by (auto simp: nth_append less_Suc_eq intro: order_trans less_imp_le)
      show "\<forall>j<i. (pre @ [v]) ! j < v"
        using Cons.prems True by (auto simp: nth_append intro: le_less_trans)
    qed
    with True show ?thesis by simp
  next
    case False
    have "argmax_scan vs (Suc i) mp idx < Suc i + length vs
       \<and> (\<forall>j < Suc i + length vs. ((pre @ [v]) @ vs) ! j \<le> ((pre @ [v]) @ vs) ! argmax_scan vs (Suc i) mp idx)
       \<and> (\<forall>j < argmax_scan vs (Suc i) mp idx. ((pre @ [v]) @ vs) ! j < ((pre @ [v]) @ vs) ! argmax_scan vs (Suc i) mp idx)"
    proof (rule Cons.IH)
      show "length (pre @ [v]) = Suc i" using Cons.prems by simp
      show "idx < Suc i" using Cons.prems by simp
      show "(pre @ [v]) ! idx = mp" using Cons.prems by (simp add: nth_append)
      show "\<forall>j<Suc i. (pre @ [v]) ! j \<le> mp"
        using Cons.prems False by (auto simp: nth_append less_Suc_eq)
      show "\<forall>j<idx. (pre @ [v]) ! j < mp"
        using Cons.prems by (auto simp: nth_append)
    qed
    with False show ?thesis by simp
  qed
qed

lemma np_argmax_props:
  assumes "np_argmax a = Inr i"
  shows "i < length a" "\<forall>j < length a. a ! j \<le> a ! i" "\<forall>j < i. a ! j < a ! i"
proof -
  from assms obtain v vs where a: "a = v # vs" and i: "i = argmax_scan vs 1 v 0"
    by (auto simp: np_argmax_def split: list.splits)
  have "argmax_scan vs 1 v 0 < 1 + length vs
       \<and> (\<forall>j < 1 + length vs. ([v] @ vs) ! j \<le> ([v] @ vs) ! argmax_scan vs 1 v 0)
       \<and> (\<forall>j < argmax_scan vs 1 v 0. ([v] @ vs) ! j < ([v] @ vs) ! argmax_scan vs 1 v 0)"
    by (rule argmax_scan_props) simp_all
  with a i show "i < length a" "\<forall>j < length a. a ! j \<le> a ! i" "\<forall>j < i. a ! j < a ! i"
    by simp_all
qed

lemma np_argmax_Max:
  assumes "np_argmax a = Inr i"
  shows "a ! i = Max (set a)"
proof -
  note p = np_argmax_props [OF assms]
  have "a ! i \<in> set a" using p(1) by simp
  moreover have "\<forall>v\<in>set a. v \<le> a ! i" using p(2) by (auto simp: in_set_conv_nth)
  ultimately show ?thesis by (intro Max_eqI [symmetric]) auto
qed

lemma np_argmax_total: "a \<noteq> [] \<Longrightarrow> \<exists>i. np_argmax a = Inr i"
  by (cases a) (simp_all add: np_argmax_def)

subsection \<open>Indexing, maximum and elementwise operations\<close>

lemma np_take_in_range:
  assumes "\<forall>i\<in>set idx. - int (length a) \<le> i \<and> i < int (length a)"
  shows "\<exists>v. np_take a idx = Inr v"
  using assms by (simp add: np_take_def list_all_iff)

lemma np_binop_eq:
  "length a = length b \<Longrightarrow> np_binop f a b = Inr (map2 f a b)"
  by (simp add: np_binop_def)

lemma np_max_Max:
  assumes "a \<noteq> []"
  shows "np_max a = Inr (Max (set a))"
proof (cases a)
  case Nil
  with assms show ?thesis by simp
next
  case (Cons v vs)
  have "Max (set (v # vs)) = fold max vs v" by (rule Max.set_eq_fold)
  with Cons show ?thesis by (simp add: np_max_def)
qed

lemma np_max_empty: "np_max [] = Inl ValueError"
  by (simp add: np_max_def)

lemma Max_abs_nonneg:
  assumes "y \<noteq> []"
  shows "0 \<le> Max (set (map abs (y::real list)))"
proof -
  from assms obtain v where v: "v \<in> set y" by (cases y) auto
  then have "\<bar>v\<bar> \<le> Max (set (map abs y))" by (intro Max_ge) auto
  then show ?thesis by linarith
qed

lemma Max_abs_zero_iff:
  assumes "y \<noteq> []"
  shows "Max (set (map abs (y::real list))) = 0 \<longleftrightarrow> (\<forall>v\<in>set y. v = 0)"
proof
  assume z: "Max (set (map abs y)) = 0"
  show "\<forall>v\<in>set y. v = 0"
  proof
    fix v assume "v \<in> set y"
    then have "\<bar>v\<bar> \<le> Max (set (map abs y))" by (intro Max_ge) auto
    with z show "v = 0" by simp
  qed
next
  assume a: "\<forall>v\<in>set y. v = 0"
  have "set (map abs y) = {0}" using assms a by (cases y) auto
  then show "Max (set (map abs y)) = 0" by simp
qed

subsection \<open>One pass through the body\<close>

lemma greedy_body_eq:
  assumes "fit_knots fit x y deg (indices st) = Inr s" "abs_errs s x y = Inr errs"
    "np_argmax errs = Inr imax"
  shows "greedy_body fit x y deg tol st =
     Inr (if errs ! imax < tol
          then \<lparr>flag = 1, ctr = ctr st + 1, indices = sort (args st), args = args st,
                errors = errors st\<rparr>
          else \<lparr>flag = flag st, ctr = ctr st + 1, indices = sort (indices st @ [int imax]),
                args = args st @ [int imax], errors = errors st @ [errs ! imax]\<rparr>)"
  using assms by (simp add: greedy_body_def bind_err_simps Let_def)

lemma greedy_body_InrD:
  assumes "greedy_body fit x y deg tol st = Inr st'"
  shows "\<exists>s errs imax. fit_knots fit x y deg (indices st) = Inr s \<and> abs_errs s x y = Inr errs
     \<and> np_argmax errs = Inr imax
     \<and> st' = (if errs ! imax < tol
          then \<lparr>flag = 1, ctr = ctr st + 1, indices = sort (args st), args = args st,
                errors = errors st\<rparr>
          else \<lparr>flag = flag st, ctr = ctr st + 1, indices = sort (indices st @ [int imax]),
                args = args st @ [int imax], errors = errors st @ [errs ! imax]\<rparr>)"
proof -
  from assms obtain s errs imax where
    h: "fit_knots fit x y deg (indices st) = Inr s" "abs_errs s x y = Inr errs"
       "np_argmax errs = Inr imax"
    unfolding greedy_body_def bind_err_Inr_iff by blast
  from greedy_body_eq [OF h, of tol] assms show ?thesis using h by auto
qed

lemma abs_errs_length:
  "abs_errs s x y = Inr errs \<Longrightarrow> length x = length y \<Longrightarrow> length errs = length x"
  by (auto simp: abs_errs_def np_binop_def bind_err_Inr_iff)

lemma abs_errs_eq:
  "length x = length y \<Longrightarrow> abs_errs s x y = Inr (map2 (\<lambda>u v. \<bar>s u - v\<bar>) x y)"
  by (simp add: abs_errs_def np_binop_def bind_err_simps zip_map1 map_zip_map split_def)

lemma fit_knots_cases:
  assumes "length x = length y" "\<forall>i\<in>set idx. - int (length x) \<le> i \<and> i < int (length x)"
  shows "fit_knots fit x y deg idx = Inl FitError \<or> (\<exists>s. fit_knots fit x y deg idx = Inr s)"
proof -
  from np_take_in_range [OF assms(2)] obtain xs where xs: "np_take x idx = Inr xs" ..
  from assms have "\<forall>i\<in>set idx. - int (length y) \<le> i \<and> i < int (length y)" by simp
  from np_take_in_range [OF this] obtain ys where ys: "np_take y idx = Inr ys" ..
  show ?thesis
    by (cases "fit xs ys deg") (simp_all add: fit_knots_def xs ys bind_err_simps)
qed

lemma greedy_body_fit_fail:
  "fit_knots fit x y deg (indices st) = Inl e \<Longrightarrow> greedy_body fit x y deg tol st = Inl e"
  by (simp add: greedy_body_def bind_err_simps)

subsection \<open>The seed\<close>

text \<open>The interior seed points are \<open>ii * n div m + n div (2 * m)\<close> for \<open>0 \<le> ii < m\<close>.
  Twice \<open>m\<close> times such a point is at most \<open>(2 * ii + 1) * n\<close>, which bounds it.\<close>

lemma mult_div_le_int: "0 < (b::int) \<Longrightarrow> b * (a div b) \<le> a"
  using mult_div_mod_eq [of b a] pos_mod_sign [of b a] by linarith

lemma seed_pt_twice:
  assumes "1 \<le> m" "0 \<le> ii" "0 \<le> (n::int)"
  shows "2 * m * (ii * n div m + n div (2 * m)) \<le> (2 * ii + 1) * n"
proof -
  have a: "m * (ii * n div m) \<le> ii * n" using assms by (intro mult_div_le_int) simp
  have b: "(2 * m) * (n div (2 * m)) \<le> n" using assms by (intro mult_div_le_int) simp
  have "2 * m * (ii * n div m + n div (2 * m)) = 2 * (m * (ii * n div m)) + (2 * m) * (n div (2 * m))"
    by (simp add: algebra_simps)
  also have "\<dots> \<le> 2 * (ii * n) + n" using a b by linarith
  also have "\<dots> = (2 * ii + 1) * n" by (simp add: algebra_simps)
  finally show ?thesis .
qed

lemma seed_pt_nonneg:
  assumes "1 \<le> m" "0 \<le> ii" "0 \<le> (n::int)"
  shows "0 \<le> ii * n div m + n div (2 * m)"
proof -
  have "0 \<le> ii * n div m" using assms by (simp add: pos_imp_zdiv_nonneg_iff)
  moreover have "0 \<le> n div (2 * m)" using assms by (simp add: pos_imp_zdiv_nonneg_iff)
  ultimately show ?thesis by simp
qed

lemma seed_pt_less:
  assumes "1 \<le> m" "0 \<le> ii" "ii < m" "1 \<le> (n::int)"
  shows "ii * n div m + n div (2 * m) < n"
proof -
  let ?g = "ii * n div m + n div (2 * m)"
  have "2 * m * ?g \<le> (2 * ii + 1) * n" using assms by (intro seed_pt_twice) simp_all
  also have "\<dots> \<le> (2 * m - 1) * n" using assms by (intro mult_right_mono) simp_all
  also have "\<dots> < (2 * m) * n" using assms by (simp add: algebra_simps)
  finally have "(2 * m) * ?g < (2 * m) * n" by simp
  then show ?thesis using assms by (simp add: mult_less_cancel_left_pos)
qed

lemma seed_pt_less_last:
  assumes "1 \<le> m" "0 \<le> ii" "ii < m" "2 * m < (n::int)"
  shows "ii * n div m + n div (2 * m) < n - 1"
proof -
  let ?g = "ii * n div m + n div (2 * m)"
  have "2 * m * ?g \<le> (2 * ii + 1) * n" using assms by (intro seed_pt_twice) simp_all
  also have "\<dots> \<le> (2 * m - 1) * n" using assms by (intro mult_right_mono) simp_all
  also have "\<dots> = (2 * m) * n - n" by (simp add: algebra_simps)
  also have "\<dots> < (2 * m) * n - 2 * m" using assms by simp
  also have "\<dots> = (2 * m) * (n - 1)" by (simp add: algebra_simps)
  finally have "(2 * m) * ?g < (2 * m) * (n - 1)" by simp
  then show ?thesis using assms by (simp add: mult_less_cancel_left_pos)
qed

lemma seed_pt_pos:
  assumes "1 \<le> m" "0 \<le> ii" "2 * m \<le> (n::int)"
  shows "1 \<le> ii * n div m + n div (2 * m)"
proof -
  have "0 \<le> ii * n div m" using assms by (simp add: pos_imp_zdiv_nonneg_iff)
  moreover have "1 \<le> n div (2 * m)"
  proof -
    have "(2 * m) div (2 * m) \<le> n div (2 * m)" using assms by (intro zdiv_mono1) simp_all
    then show ?thesis using assms by simp
  qed
  ultimately show ?thesis by linarith
qed

lemma seed_pt_strict_mono:
  assumes "1 \<le> m" "0 \<le> ii" "ii < jj" "m \<le> (n::int)"
  shows "ii * n div m + n div (2 * m) < jj * n div m + n div (2 * m)"
proof -
  have "ii * n div m + 1 = (ii * n + m) div m" using assms by simp
  also have "\<dots> \<le> (jj * n) div m"
  proof (rule zdiv_mono1)
    have "ii * n + m \<le> ii * n + n" using assms by simp
    also have "\<dots> = (ii + 1) * n" by (simp add: algebra_simps)
    also have "\<dots> \<le> jj * n" using assms by (intro mult_right_mono) simp_all
    finally show "ii * n + m \<le> jj * n" .
    show "0 < m" using assms by simp
  qed
  finally show ?thesis by simp
qed

lemma seed_f_length: "length (seed_f m n) = nat m"
  by (simp add: seed_f_def)

lemma seed_f_set: "set (seed_f m n) = (\<lambda>ii. ii * n div m + n div (2 * m)) ` {0..m - 1}"
  by (simp add: seed_f_def)

lemma seed_f_range:
  assumes "1 \<le> n"
  shows "set (seed_f m n) \<subseteq> {0..n - 1}"
proof
  fix v assume "v \<in> set (seed_f m n)"
  then obtain ii where ii: "0 \<le> ii" "ii \<le> m - 1" and v: "v = ii * n div m + n div (2 * m)"
    by (auto simp: seed_f_set)
  then have m: "1 \<le> m" by simp
  from seed_pt_nonneg [OF m ii(1), of n] seed_pt_less [OF m ii(1), of n] ii assms v
  show "v \<in> {0..n - 1}" by simp
qed

lemma seed_f_distinct:
  assumes "m \<le> n"
  shows "distinct (seed_f m n)"
proof -
  have "inj_on (\<lambda>ii. ii * n div m + n div (2 * m)) {0..m - 1}"
  proof (rule linorder_inj_onI)
    fix a b assume "a < b" "a \<in> {0..m - 1}" "b \<in> {0..m - 1}"
    then have "a * n div m + n div (2 * m) < b * n div m + n div (2 * m)"
      using assms by (intro seed_pt_strict_mono) simp_all
    then show "a * n div m + n div (2 * m) \<noteq> b * n div m + n div (2 * m)" by simp
  qed linarith
  then show ?thesis by (simp add: seed_f_def distinct_map)
qed

lemma seed_f_first:
  assumes "1 \<le> m" "0 \<le> n" "n < 2 * m"
  shows "0 \<in> set (seed_f m n)"
proof -
  have "(0::int) * n div m + n div (2 * m) = 0" using assms by (simp add: div_pos_pos_trivial)
  moreover have "(0::int) \<in> {0..m - 1}" using assms by simp
  ultimately show ?thesis unfolding seed_f_set by (metis (mono_tags, lifting) image_eqI)
qed

lemma seed_f_last:
  assumes "1 \<le> m" "n = 2 * m"
  shows "n - 1 \<in> set (seed_f m n)"
proof -
  have "(m - 1) * n = (2 * (m - 1)) * m" using assms by (simp add: algebra_simps)
  then have "(m - 1) * n div m = 2 * (m - 1)" using assms by simp
  moreover have "n div (2 * m) = 1" using assms by simp
  ultimately have "(m - 1) * n div m + n div (2 * m) = n - 1" using assms by simp
  moreover have "m - 1 \<in> {0..m - 1}" using assms by simp
  ultimately show ?thesis unfolding seed_f_set by (metis (mono_tags, lifting) image_eqI)
qed

lemma u_seed_None:
  "fst (u_seed x d None) = sort ([0, int (length x) - 1] @ seed_f (d - 1) (int (length x)))"
  "snd (u_seed x d None) = []"
  by (simp_all add: u_seed_def)

lemma u_seed_default_length: "length (fst (u_seed x d None)) = 2 + nat (d - 1)"
  by (simp add: u_seed_None seed_f_length del: sort_key_simps)

lemma u_seed_default_sorted: "sorted (fst (u_seed x d None))"
  by (simp add: u_seed_None del: sort_key_simps)

lemma u_seed_default_set:
  "set (fst (u_seed x d None)) = {0, int (length x) - 1} \<union> set (seed_f (d - 1) (int (length x)))"
  by (simp add: u_seed_None del: sort_key_simps)

lemma u_seed_default_range:
  assumes "x \<noteq> []"
  shows "set (fst (u_seed x d None)) \<subseteq> {0..int (length x) - 1}"
proof -
  have n: "1 \<le> int (length x)" using assms by (cases x) simp_all
  from seed_f_range [OF n, of "d - 1"] n show ?thesis
    unfolding u_seed_default_set by auto
qed

lemma u_seed_default_distinct:
  assumes "2 \<le> d"
  shows "distinct (fst (u_seed x d None)) \<longleftrightarrow> 2 * (d - 1) < int (length x)"
proof -
  let ?n = "int (length x)" and ?m = "d - 1"
  have m: "1 \<le> ?m" using assms by simp
  have d: "distinct (fst (u_seed x d None)) \<longleftrightarrow> distinct ([0, ?n - 1] @ seed_f ?m ?n)"
    by (simp add: u_seed_None del: sort_key_simps)
  show ?thesis
  proof (cases "2 * ?m < ?n")
    case True
    have "0 \<notin> set (seed_f ?m ?n)"
    proof
      assume "0 \<in> set (seed_f ?m ?n)"
      then obtain ii where ii: "0 \<le> ii" "0 = ii * ?n div ?m + ?n div (2 * ?m)"
        by (auto simp: seed_f_set)
      from seed_pt_pos [OF m ii(1), of ?n] True ii(2) show False by simp
    qed
    moreover have "?n - 1 \<notin> set (seed_f ?m ?n)"
    proof
      assume "?n - 1 \<in> set (seed_f ?m ?n)"
      then obtain ii where ii: "0 \<le> ii" "ii < ?m" "?n - 1 = ii * ?n div ?m + ?n div (2 * ?m)"
        by (auto simp: seed_f_set)
      from seed_pt_less_last [OF m ii(1) ii(2) True] ii(3) show False by simp
    qed
    moreover have "distinct (seed_f ?m ?n)" using True m by (intro seed_f_distinct) simp
    moreover have "(0::int) \<noteq> ?n - 1" using True m by simp
    ultimately show ?thesis using True d by simp
  next
    case False
    have "0 \<in> set (seed_f ?m ?n) \<or> ?n - 1 \<in> set (seed_f ?m ?n)"
    proof (cases "?n = 2 * ?m")
      case True
      from seed_f_last [OF m True] show ?thesis ..
    next
      case ne: False
      with False have "?n < 2 * ?m" by simp
      from seed_f_first [OF m _ this] show ?thesis by simp
    qed
    then show ?thesis using False d by auto
  qed
qed

subsection \<open>The loop\<close>

text \<open>The loop either stops at its head, or goes once through its body and starts again;
  the states it passes through are those of \<open>greedy_reach\<close>.\<close>

lemma greedy_loop_stop:
  "\<not> (flag st = 0 \<and> ctr st < int (length x)) \<Longrightarrow> greedy_loop fit x y deg tol st = Inr st"
  by (subst greedy_loop.simps) auto

lemma greedy_loop_step:
  "flag st = 0 \<Longrightarrow> ctr st < int (length x) \<Longrightarrow> greedy_body fit x y deg tol st = Inr st'
   \<Longrightarrow> greedy_loop fit x y deg tol st = greedy_loop fit x y deg tol st'"
  by (subst greedy_loop.simps) simp

lemma greedy_loop_fail:
  "flag st = 0 \<Longrightarrow> ctr st < int (length x) \<Longrightarrow> greedy_body fit x y deg tol st = Inl e
   \<Longrightarrow> greedy_loop fit x y deg tol st = Inl e"
  by (subst greedy_loop.simps) simp

lemma greedy_reach_loop:
  "greedy_reach fit x y deg tol st0 st
   \<Longrightarrow> greedy_loop fit x y deg tol st0 = greedy_loop fit x y deg tol st"
  by (induction rule: greedy_reach.induct) (simp_all add: greedy_loop_step)

lemma greedy_loop_reach:
  "greedy_loop fit x y deg tol st = Inr st' \<Longrightarrow> greedy_reach fit x y deg tol st st'"
proof (induction fit x y deg tol st rule: greedy_loop.induct)
  case (1 fit x y deg tol st)
  show ?case
  proof (cases "flag st = 0 \<and> ctr st < int (length x)")
    case False
    with "1.prems" have "st' = st" by (simp add: greedy_loop_stop)
    then show ?thesis by (simp add: reach_start)
  next
    case True
    show ?thesis
    proof (cases "greedy_body fit x y deg tol st")
      case (Inl e)
      with True "1.prems" show ?thesis by (simp add: greedy_loop_fail)
    next
      case (Inr st1)
      with True "1.prems" have l: "greedy_loop fit x y deg tol st1 = Inr st'"
        by (simp add: greedy_loop_step)
      from "1.IH" [OF True Inr l] have r: "greedy_reach fit x y deg tol st1 st'" .
      have "greedy_reach fit x y deg tol st st1"
        using True Inr by (intro reach_pass [OF reach_start]) simp_all
      moreover have "greedy_reach fit x y deg tol st1 st' \<Longrightarrow> greedy_reach fit x y deg tol st st1
           \<Longrightarrow> greedy_reach fit x y deg tol st st'"
        by (induction rule: greedy_reach.induct) (auto intro: reach_pass)
      ultimately show ?thesis using r by blast
    qed
  qed
qed

lemma sort_append_sort: "sort (sort xs @ ys) = sort (xs @ (ys::int list))"
  by (rule properties_for_sort) simp_all

lemma greedy_body_knots:
  assumes "greedy_body fit x y deg tol st = Inr st'" "mset (indices st) = mset (args st)"
  shows "indices st' = sort (args st')"
proof -
  from greedy_body_InrD [OF assms(1)] obtain s errs imax where
    st': "st' = (if errs ! imax < tol
          then \<lparr>flag = 1, ctr = ctr st + 1, indices = sort (args st), args = args st,
                errors = errors st\<rparr>
          else \<lparr>flag = flag st, ctr = ctr st + 1, indices = sort (indices st @ [int imax]),
                args = args st @ [int imax], errors = errors st @ [errs ! imax]\<rparr>)"
    by blast
  have "sort (indices st @ [int imax]) = sort (args st @ [int imax])"
    by (rule properties_for_sort) (simp_all add: assms(2))
  with st' show ?thesis by (simp del: sort_key_simps)
qed

lemma greedy_reach_knots:
  assumes "greedy_reach fit x y deg tol st0 st" "mset (indices st0) = mset (args st0)"
  shows "st = st0 \<or> indices st = sort (args st)"
  using assms
proof (induction rule: greedy_reach.induct)
  case reach_start
  then show ?case by simp
next
  case (reach_pass st st')
  then have "mset (indices st) = mset (args st)" by auto
  from greedy_body_knots [OF reach_pass.hyps(4) this] show ?case ..
qed

lemma greedy_start_simps:
  "flag (greedy_start x deg seeds) = 0"
  "ctr (greedy_start x deg seeds) = int (length (fst (u_seed x deg seeds))) + 1"
  "indices (greedy_start x deg seeds) = fst (u_seed x deg seeds)"
  "args (greedy_start x deg seeds) = fst (u_seed x deg seeds)"
  "errors (greedy_start x deg seeds) = []"
  by (simp_all add: greedy_start_def u_seed_def Let_def)

lemma u_greedy_InrD:
  assumes "u_greedy fit x y tol rel deg seeds = Inr r"
  shows "\<exists>t st s. effective_tol y tol rel = Inr t
     \<and> greedy_loop fit x y deg t (greedy_start x deg seeds) = Inr st
     \<and> fit_knots fit x y deg (indices st) = Inr s
     \<and> r = (s, indices st, args st, errors st, t)"
  using assms unfolding u_greedy_def bind_err_Inr_iff by auto

lemma u_greedy_eq:
  assumes "effective_tol y tol rel = Inr t"
     "greedy_loop fit x y deg t (greedy_start x deg seeds) = Inr st"
     "fit_knots fit x y deg (indices st) = Inr s"
  shows "u_greedy fit x y tol rel deg seeds = Inr (s, indices st, args st, errors st, t)"
  using assms by (simp add: u_greedy_def bind_err_simps)

lemma greedy_InrD:
  assumes "greedy fit self x y tol rel deg seeds = Inr m"
  shows "\<exists>s idx a e t X Y. u_greedy fit x y tol rel deg seeds = Inr (s, idx, a, e, t)
     \<and> np_take x idx = Inr X \<and> np_take y idx = Inr Y \<and> idx \<noteq> []
     \<and> m = self\<lparr>ros_deg := deg, ros_rel := rel, ros_made := True, ros_tol_in := Some tol,
                    ros_spline := Some s, ros_indices := Some idx, ros_args := Some a,
                    ros_errors := Some e, ros_tol := Some t,
                    ros_X := Some X, ros_Y := Some Y, ros_size := Some (int (length idx)),
                    ros_compression := Some (real (length y) / real_of_int (int (length idx)))\<rparr>"
  using assms
  by (auto simp: greedy_def bind_err_Inr_iff Let_def split: if_splits prod.splits)

lemma greedy_body_distinct:
  assumes b: "greedy_body fit x y deg tol st = Inr st'"
    and ms: "mset (indices st) = mset (args st)" and fl: "flag st = 0"
  shows "distinct (indices st') \<longleftrightarrow>
           distinct (indices st) \<and> (flag st' = 0 \<longrightarrow> last (args st') \<notin> set (indices st))"
proof -
  from greedy_body_InrD [OF b] obtain s errs imax where
    st': "st' = (if errs ! imax < tol
          then \<lparr>flag = 1, ctr = ctr st + 1, indices = sort (args st), args = args st,
                errors = errors st\<rparr>
          else \<lparr>flag = flag st, ctr = ctr st + 1, indices = sort (indices st @ [int imax]),
                args = args st @ [int imax], errors = errors st @ [errs ! imax]\<rparr>)"
    by blast
  have d: "distinct (args st) = distinct (indices st)"
    using ms by (metis distinct_count_atmost_1 set_mset_mset count_mset)
  show ?thesis
  proof (cases "errs ! imax < tol")
    case True
    with st' d show ?thesis by (simp del: sort_key_simps)
  next
    case False
    with st' fl show ?thesis by (auto simp del: sort_key_simps)
  qed
qed

lemma greedy_reach_stuck:
  assumes "greedy_reach fit x y deg tol st0 st" "\<not> (flag st0 = 0 \<and> ctr st0 < int (length x))"
  shows "st = st0"
  using assms
proof (induction rule: greedy_reach.induct)
  case reach_start
  show ?case ..
next
  case (reach_pass st st')
  then have "st = st0" by simp
  with reach_pass show ?case by simp
qed

text \<open>\<open>greedy_loop\<close> is a total function: the distance of \<open>ctr\<close> from the length of the
  data shrinks with every pass, so the loop always stops. What it stops with is the
  subject of the next lemma: on data of equal lengths and knots inside the domain
  nothing in the loop raises except, possibly, the fitter.\<close>

lemma greedy_loop_total:
  assumes "length x = length y" "x \<noteq> []"
    and "\<forall>i\<in>set (indices st). - int (length x) \<le> i \<and> i < int (length x)"
    and "indices st = sort (args st)"
    and "flag st = 0"
    and "\<forall>e\<in>set (errors st). tol \<le> e"
  shows "greedy_loop fit x y deg tol st = Inl FitError
     \<or> (\<exists>st'. greedy_loop fit x y deg tol st = Inr st'
          \<and> (\<forall>i\<in>set (indices st'). - int (length x) \<le> i \<and> i < int (length x))
          \<and> (\<forall>e\<in>set (errors st'). tol \<le> e)
          \<and> ((flag st' = 1
               \<and> (\<exists>s errs. fit_knots fit x y deg (indices st') = Inr s
                     \<and> abs_errs s x y = Inr errs \<and> (\<forall>e\<in>set errs. e < tol)))
             \<or> (flag st' = 0 \<and> int (length x) \<le> ctr st'
               \<and> int (length (indices st'))
                  = int (length (indices st)) + max 0 (int (length x) - ctr st))))"
  using assms
proof (induction fit x y deg tol st rule: greedy_loop.induct)
  case (1 fit x y deg tol st)
  note len = "1.prems"(1) and ne = "1.prems"(2) and rng = "1.prems"(3) and inv = "1.prems"(4)
    and fl = "1.prems"(5) and tr = "1.prems"(6)
  show ?case
  proof (cases "ctr st < int (length x)")
    case False
    then have "greedy_loop fit x y deg tol st = Inr st" by (simp add: greedy_loop_stop)
    with False fl rng tr show ?thesis by simp
  next
    case True
    from fit_knots_cases [OF len rng, of fit deg]
    show ?thesis
    proof
      assume "fit_knots fit x y deg (indices st) = Inl FitError"
      then have "greedy_body fit x y deg tol st = Inl FitError" by (rule greedy_body_fit_fail)
      with fl True show ?thesis by (simp add: greedy_loop_fail)
    next
      assume "\<exists>s. fit_knots fit x y deg (indices st) = Inr s"
      then obtain s where s: "fit_knots fit x y deg (indices st) = Inr s" ..
      define errs where "errs = map2 (\<lambda>u v. \<bar>s u - v\<bar>) x y"
      have e: "abs_errs s x y = Inr errs" unfolding errs_def by (rule abs_errs_eq [OF len])
      have el: "length errs = length x" using len by (simp add: errs_def)
      with ne have "errs \<noteq> []" by auto
      from np_argmax_total [OF this] obtain imax where im: "np_argmax errs = Inr imax" ..
      note p = np_argmax_props [OF im]
      show ?thesis
      proof (cases "errs ! imax < tol")
        case conv: True
        let ?st1 = "\<lparr>flag = 1, ctr = ctr st + 1, indices = sort (args st), args = args st,
                errors = errors st\<rparr>"
        have b: "greedy_body fit x y deg tol st = Inr ?st1"
          using greedy_body_eq [OF s e im, of tol] conv by simp
        have "greedy_loop fit x y deg tol st = greedy_loop fit x y deg tol ?st1"
          by (rule greedy_loop_step [OF fl True b])
        also have "\<dots> = Inr ?st1" by (rule greedy_loop_stop) simp
        finally have l: "greedy_loop fit x y deg tol st = Inr ?st1" .
        have "\<forall>v\<in>set errs. v < tol"
        proof
          fix v assume "v \<in> set errs"
          then obtain j where "j < length errs" "errs ! j = v" by (auto simp: in_set_conv_nth)
          with p(2) have "v \<le> errs ! imax" by auto
          with conv show "v < tol" by simp
        qed
        with s e inv have "\<exists>s errs. fit_knots fit x y deg (indices ?st1) = Inr s
                     \<and> abs_errs s x y = Inr errs \<and> (\<forall>e\<in>set errs. e < tol)"
          by (auto simp del: sort_key_simps)
        moreover have "\<forall>i\<in>set (indices ?st1). - int (length x) \<le> i \<and> i < int (length x)"
          using rng inv by (simp del: sort_key_simps)
        ultimately show ?thesis using l tr by (simp del: sort_key_simps)
      next
        case nconv: False
        let ?st1 = "\<lparr>flag = flag st, ctr = ctr st + 1, indices = sort (indices st @ [int imax]),
                args = args st @ [int imax], errors = errors st @ [errs ! imax]\<rparr>"
        have b: "greedy_body fit x y deg tol st = Inr ?st1"
          using greedy_body_eq [OF s e im, of tol] nconv by simp
        have l: "greedy_loop fit x y deg tol st = greedy_loop fit x y deg tol ?st1"
          by (rule greedy_loop_step [OF fl True b])
        have ms: "mset (indices st) = mset (args st)" using inv by (metis mset_sort)
        have rng1: "\<forall>i\<in>set (indices ?st1). - int (length x) \<le> i \<and> i < int (length x)"
          using rng p(1) el by (auto simp del: sort_key_simps)
        have inv1: "indices ?st1 = sort (args ?st1)" by (rule greedy_body_knots [OF b ms])
        have fl1: "flag ?st1 = 0" using fl by simp
        have tr1: "\<forall>e\<in>set (errors ?st1). tol \<le> e" using tr nconv by auto
        have c: "flag st = 0 \<and> ctr st < int (length x)" using fl True by simp
        from "1.IH" [OF c b len ne rng1 inv1 fl1 tr1]
        show ?thesis
        proof
          assume "greedy_loop fit x y deg tol ?st1 = Inl FitError"
          with l show ?thesis by simp
        next
          assume "\<exists>st'. greedy_loop fit x y deg tol ?st1 = Inr st'
          \<and> (\<forall>i\<in>set (indices st'). - int (length x) \<le> i \<and> i < int (length x))
          \<and> (\<forall>e\<in>set (errors st'). tol \<le> e)
          \<and> ((flag st' = 1
               \<and> (\<exists>s errs. fit_knots fit x y deg (indices st') = Inr s
                     \<and> abs_errs s x y = Inr errs \<and> (\<forall>e\<in>set errs. e < tol)))
             \<or> (flag st' = 0 \<and> int (length x) \<le> ctr st'
               \<and> int (length (indices st'))
                  = int (length (indices ?st1)) + max 0 (int (length x) - ctr ?st1)))"
          then obtain st' where st': "greedy_loop fit x y deg tol ?st1 = Inr st'"
            and r: "\<forall>i\<in>set (indices st'). - int (length x) \<le> i \<and> i < int (length x)"
               "\<forall>e\<in>set (errors st'). tol \<le> e"
            and d: "(flag st' = 1
               \<and> (\<exists>s errs. fit_knots fit x y deg (indices st') = Inr s
                     \<and> abs_errs s x y = Inr errs \<and> (\<forall>e\<in>set errs. e < tol)))
             \<or> (flag st' = 0 \<and> int (length x) \<le> ctr st'
               \<and> int (length (indices st'))
                  = int (length (indices ?st1)) + max 0 (int (length x) - ctr ?st1))"
            by blast
          have "int (length (indices ?st1)) + max 0 (int (length x) - ctr ?st1)
              = int (length (indices st)) + max 0 (int (length x) - ctr st)"
            using True by (simp del: sort_key_simps)
          with d have "(flag st' = 1
               \<and> (\<exists>s errs. fit_knots fit x y deg (indices st') = Inr s
                     \<and> abs_errs s x y = Inr errs \<and> (\<forall>e\<in>set errs. e < tol)))
             \<or> (flag st' = 0 \<and> int (length x) \<le> ctr st'
               \<and> int (length (indices st'))
                  = int (length (indices st)) + max 0 (int (length x) - ctr st))"
            by presburger
          with l st' r show ?thesis by auto
        qed
      qed
    qed
  qed
qed

subsection \<open>What the loop keeps when the fitter interpolates\<close>

text \<open>With a fitter that passes through its knots the error at a knot is zero, so a
  pass that does not converge under a positive tolerance selects a point that is not a
  knot yet. Knots that are unique, sorted and inside the domain stay so, and a fitter that
  accepts increasing abscissas never fails on them.\<close>

lemma greedy_reach_trans:
  "greedy_reach fit x y deg tol st1 st2 \<Longrightarrow> greedy_reach fit x y deg tol st0 st1
   \<Longrightarrow> greedy_reach fit x y deg tol st0 st2"
  by (induction rule: greedy_reach.induct) (auto intro: reach_pass)

lemma greedy_loop_fail_reach:
  "greedy_loop fit x y deg tol st0 = Inl e
   \<Longrightarrow> \<exists>st. greedy_reach fit x y deg tol st0 st \<and> flag st = 0 \<and> ctr st < int (length x)
          \<and> greedy_body fit x y deg tol st = Inl e"
proof (induction fit x y deg tol st0 rule: greedy_loop.induct)
  case (1 fit x y deg tol st)
  show ?case
  proof (cases "flag st = 0 \<and> ctr st < int (length x)")
    case False
    with "1.prems" show ?thesis by (simp add: greedy_loop_stop)
  next
    case True
    show ?thesis
    proof (cases "greedy_body fit x y deg tol st")
      case (Inl e')
      with True "1.prems" have "e' = e" by (simp add: greedy_loop_fail)
      with Inl True show ?thesis by (auto intro: reach_start)
    next
      case (Inr st1)
      with True "1.prems" have l: "greedy_loop fit x y deg tol st1 = Inl e"
        by (simp add: greedy_loop_step)
      from "1.IH" [OF True Inr l] obtain st2 where
        r: "greedy_reach fit x y deg tol st1 st2" and
        b: "flag st2 = 0" "ctr st2 < int (length x)" "greedy_body fit x y deg tol st2 = Inl e"
        by blast
      have "greedy_reach fit x y deg tol st st1"
        using True Inr by (intro reach_pass [OF reach_start]) simp_all
      from greedy_reach_trans [OF r this] b show ?thesis by blast
    qed
  qed
qed

lemma fit_knots_InrD:
  assumes "fit_knots fit x y deg idx = Inr s"
  shows "\<exists>xs ys. np_take x idx = Inr xs \<and> np_take y idx = Inr ys \<and> fit xs ys deg = Some s"
  using assms by (auto simp: fit_knots_def bind_err_Inr_iff split: option.splits)

lemma np_take_InrD:
  assumes "np_take a idx = Inr v"
  shows "(\<forall>i\<in>set idx. - int (length a) \<le> i \<and> i < int (length a))"
    "v = map (\<lambda>i. a ! nat (if i < 0 then int (length a) + i else i)) idx"
  using assms by (auto simp: np_take_def Let_def list_all_iff split: if_splits)

lemma fit_knots_exact:
  assumes f: "fit_knots fit x y deg idx = Inr s" and ip: "interpolates fit"
    and len: "length x = length y" and i: "i \<in> set idx" "0 \<le> i"
  shows "nat i < length x \<and> s (x ! nat i) = y ! nat i"
proof -
  from fit_knots_InrD [OF f] obtain xs ys where
    tx: "np_take x idx = Inr xs" and ty: "np_take y idx = Inr ys" and fs: "fit xs ys deg = Some s"
    by blast
  note px = np_take_InrD [OF tx] and py = np_take_InrD [OF ty]
  from i obtain j where j: "j < length idx" "idx ! j = i" by (auto simp: in_set_conv_nth)
  from px(1) i have r: "nat i < length x" by auto
  have "xs ! j = x ! nat i" using px(2) j i by simp
  moreover have "ys ! j = y ! nat i" using py(2) j i by simp
  moreover have "j < length xs \<and> j < length ys" using px(2) py(2) j by simp
  ultimately have "s (x ! nat i) = y ! nat i"
    using ip fs unfolding interpolates_def by metis
  with r show ?thesis ..
qed

lemma greedy_body_keeps_distinct:
  assumes b: "greedy_body fit x y deg tol st = Inr st'" and ip: "interpolates fit"
    and tol: "0 < tol" and len: "length x = length y"
    and ms: "mset (indices st) = mset (args st)" and d: "distinct (indices st)"
  shows "distinct (indices st')"
proof -
  from greedy_body_InrD [OF b] obtain s errs imax where
    h: "fit_knots fit x y deg (indices st) = Inr s" "abs_errs s x y = Inr errs"
       "np_argmax errs = Inr imax"
    and st': "st' = (if errs ! imax < tol
          then \<lparr>flag = 1, ctr = ctr st + 1, indices = sort (args st), args = args st,
                errors = errors st\<rparr>
          else \<lparr>flag = flag st, ctr = ctr st + 1, indices = sort (indices st @ [int imax]),
                args = args st @ [int imax], errors = errors st @ [errs ! imax]\<rparr>)"
    by blast
  have da: "distinct (args st)"
    using ms d by (metis distinct_count_atmost_1 set_mset_mset count_mset)
  show ?thesis
  proof (cases "errs ! imax < tol")
    case True
    with st' da show ?thesis by (simp del: sort_key_simps)
  next
    case False
    have e: "errs = map2 (\<lambda>u v. \<bar>s u - v\<bar>) x y" using h(2) abs_errs_eq [OF len, of s] by simp
    have "int imax \<notin> set (indices st)"
    proof
      assume m: "int imax \<in> set (indices st)"
      from fit_knots_exact [OF h(1) ip len m] have "imax < length x" "s (x ! imax) = y ! imax"
        by simp_all
      then have "errs ! imax = 0" using e len by simp
      with False tol show False by simp
    qed
    with st' False d show ?thesis by (simp del: sort_key_simps)
  qed
qed

lemma greedy_reach_mset:
  assumes "greedy_reach fit x y deg tol st0 st" "mset (indices st0) = mset (args st0)"
  shows "mset (indices st) = mset (args st)"
  using greedy_reach_knots [OF assms] assms(2) by auto

lemma greedy_reach_distinct:
  assumes "greedy_reach fit x y deg tol st0 st" and "interpolates fit" "0 < tol"
    "length x = length y" "mset (indices st0) = mset (args st0)" "distinct (indices st0)"
  shows "distinct (indices st)"
  using assms
proof (induction rule: greedy_reach.induct)
  case reach_start
  then show ?case by simp
next
  case (reach_pass st st')
  have ms: "mset (indices st) = mset (args st)"
    by (rule greedy_reach_mset [OF reach_pass.hyps(1) reach_pass.prems(4)])
  have d: "distinct (indices st)" using reach_pass by simp
  show ?case
    by (rule greedy_body_keeps_distinct [OF reach_pass.hyps(4) reach_pass.prems(1-3) ms d])
qed

lemma greedy_body_range:
  assumes b: "greedy_body fit x y deg tol st = Inr st'" and len: "length x = length y"
    and ms: "mset (indices st) = mset (args st)"
    and r: "\<forall>i\<in>set (indices st). 0 \<le> i \<and> i < int (length x)"
  shows "\<forall>i\<in>set (indices st'). 0 \<le> i \<and> i < int (length x)"
proof -
  from greedy_body_InrD [OF b] obtain s errs imax where
    h: "abs_errs s x y = Inr errs" "np_argmax errs = Inr imax"
    and st': "st' = (if errs ! imax < tol
          then \<lparr>flag = 1, ctr = ctr st + 1, indices = sort (args st), args = args st,
                errors = errors st\<rparr>
          else \<lparr>flag = flag st, ctr = ctr st + 1, indices = sort (indices st @ [int imax]),
                args = args st @ [int imax], errors = errors st @ [errs ! imax]\<rparr>)"
    by blast
  have "imax < length x" using np_argmax_props(1) [OF h(2)] abs_errs_length [OF h(1) len] by simp
  moreover have "set (args st) = set (indices st)" using ms by (metis set_mset_mset)
  ultimately show ?thesis using st' r by (auto simp del: sort_key_simps)
qed

lemma greedy_reach_range:
  assumes "greedy_reach fit x y deg tol st0 st" and "length x = length y"
    "mset (indices st0) = mset (args st0)"
    "\<forall>i\<in>set (indices st0). 0 \<le> i \<and> i < int (length x)"
  shows "\<forall>i\<in>set (indices st). 0 \<le> i \<and> i < int (length x)"
  using assms
proof (induction rule: greedy_reach.induct)
  case reach_start
  then show ?case by simp
next
  case (reach_pass st st')
  have ms: "mset (indices st) = mset (args st)"
    by (rule greedy_reach_mset [OF reach_pass.hyps(1) reach_pass.prems(2)])
  have r: "\<forall>i\<in>set (indices st). 0 \<le> i \<and> i < int (length x)" using reach_pass by simp
  show ?case by (rule greedy_body_range [OF reach_pass.hyps(4) reach_pass.prems(1) ms r])
qed

lemma greedy_body_length:
  assumes b: "greedy_body fit x y deg tol st = Inr st'"
    and ms: "mset (indices st) = mset (args st)"
  shows "length (indices st) \<le> length (indices st')"
proof -
  from greedy_body_InrD [OF b] obtain s errs imax where
    st': "st' = (if errs ! imax < tol
          then \<lparr>flag = 1, ctr = ctr st + 1, indices = sort (args st), args = args st,
                errors = errors st\<rparr>
          else \<lparr>flag = flag st, ctr = ctr st + 1, indices = sort (indices st @ [int imax]),
                args = args st @ [int imax], errors = errors st @ [errs ! imax]\<rparr>)"
    by blast
  have "length (args st) = length (indices st)" using ms by (metis mset_eq_length)
  with st' show ?thesis by (simp del: sort_key_simps)
qed

lemma greedy_reach_length:
  assumes "greedy_reach fit x y deg tol st0 st" "mset (indices st0) = mset (args st0)"
  shows "length (indices st0) \<le> length (indices st)"
  using assms
proof (induction rule: greedy_reach.induct)
  case reach_start
  then show ?case by simp
next
  case (reach_pass st st')
  have ms: "mset (indices st) = mset (args st)"
    by (rule greedy_reach_mset [OF reach_pass.hyps(1) reach_pass.prems])
  from greedy_body_length [OF reach_pass.hyps(4) ms] reach_pass show ?case by simp
qed

lemma greedy_reach_sorted:
  assumes "greedy_reach fit x y deg tol st0 st" "mset (indices st0) = mset (args st0)"
    "sorted (indices st0)"
  shows "sorted (indices st) \<and> indices st = sort (args st)"
proof -
  from greedy_reach_knots [OF assms(1,2)] show ?thesis
  proof
    assume "st = st0"
    moreover have "sort (args st0) = indices st0"
      by (rule properties_for_sort) (simp_all add: assms)
    ultimately show ?thesis using assms(3) by simp
  next
    assume e: "indices st = sort (args st)"
    have "sorted (sort (args st))" by (rule sorted_sort)
    with e show ?thesis by simp
  qed
qed

lemma np_take_increasing:
  assumes x: "sorted_wrt (<) x" and s: "sorted idx" and d: "distinct idx"
    and r: "\<forall>i\<in>set idx. 0 \<le> i \<and> i < int (length x)"
  shows "\<exists>xs. np_take x idx = Inr xs \<and> length xs = length idx \<and> sorted_wrt (<) xs"
proof -
  have "\<forall>i\<in>set idx. - int (length x) \<le> i \<and> i < int (length x)" using r by auto
  from np_take_in_range [OF this] obtain xs where xs: "np_take x idx = Inr xs" ..
  have "xs = map (\<lambda>i. x ! nat i) idx"
    unfolding np_take_InrD(2) [OF xs] using r by (intro map_cong) auto
  with xs have t: "np_take x idx = Inr (map (\<lambda>i. x ! nat i) idx)" by simp
  have si: "sorted_wrt (<) idx" using s d by (simp add: strict_sorted_iff)
  have "sorted_wrt (\<lambda>i j. x ! nat i < x ! nat j) idx"
  proof (rule sorted_wrt_mono_rel [OF _ si])
    fix i j assume "i \<in> set idx" "j \<in> set idx" "i < j"
    with r have "nat i < nat j" "nat j < length x" by auto
    with x show "x ! nat i < x ! nat j" by (simp add: sorted_wrt_nth_less)
  qed
  then have "sorted_wrt (<) (map (\<lambda>i. x ! nat i) idx)" by (simp add: sorted_wrt_map)
  with t show ?thesis by simp
qed

lemma fit_knots_accepts:
  assumes acc: "accepts_increasing fit deg" and x: "sorted_wrt (<) x" and len: "length x = length y"
    and s: "sorted idx" and d: "distinct idx"
    and r: "\<forall>i\<in>set idx. 0 \<le> i \<and> i < int (length x)" and dl: "deg < int (length idx)"
  shows "\<exists>s. fit_knots fit x y deg idx = Inr s"
proof -
  from np_take_increasing [OF x s d r] obtain xs where
    xs: "np_take x idx = Inr xs" "length xs = length idx" "sorted_wrt (<) xs" by blast
  from r len have "\<forall>i\<in>set idx. - int (length y) \<le> i \<and> i < int (length y)" by auto
  from np_take_in_range [OF this] obtain ys where ys: "np_take y idx = Inr ys" ..
  have "length ys = length idx" using np_take_InrD(2) [OF ys] by simp
  with xs dl acc have "fit xs ys deg \<noteq> None" unfolding accepts_increasing_def by auto
  then obtain s where "fit xs ys deg = Some s" by auto
  with xs ys show ?thesis by (simp add: fit_knots_def bind_err_simps)
qed

lemma greedy_returns:
  assumes ip: "interpolates fit" and acc: "accepts_increasing fit deg"
    and x: "sorted_wrt (<) x" and len: "length x = length y" and ne: "x \<noteq> []"
    and tol: "0 < tol"
    and ms0: "mset (indices st0) = mset (args st0)" and s0: "sorted (indices st0)"
    and d0: "distinct (indices st0)"
    and r0: "\<forall>i\<in>set (indices st0). 0 \<le> i \<and> i < int (length x)"
    and l0: "deg < int (length (indices st0))"
  shows "\<exists>st' s. greedy_loop fit x y deg tol st0 = Inr st'
           \<and> fit_knots fit x y deg (indices st') = Inr s"
proof -
  have good: "\<exists>s. fit_knots fit x y deg (indices st) = Inr s"
    if r: "greedy_reach fit x y deg tol st0 st" for st
  proof -
    have "sorted (indices st)" using greedy_reach_sorted [OF r ms0 s0] by simp
    moreover have "distinct (indices st)" by (rule greedy_reach_distinct [OF r ip tol len ms0 d0])
    moreover have "\<forall>i\<in>set (indices st). 0 \<le> i \<and> i < int (length x)"
      by (rule greedy_reach_range [OF r len ms0 r0])
    moreover have "deg < int (length (indices st))"
      using greedy_reach_length [OF r ms0] l0 by simp
    ultimately show ?thesis by (intro fit_knots_accepts [OF acc x len])
  qed
  have nofail: "greedy_loop fit x y deg tol st0 \<noteq> Inl e" for e
  proof
    assume "greedy_loop fit x y deg tol st0 = Inl e"
    from greedy_loop_fail_reach [OF this] obtain st where
      r: "greedy_reach fit x y deg tol st0 st" and b: "greedy_body fit x y deg tol st = Inl e"
      by blast
    from good [OF r] obtain s where s: "fit_knots fit x y deg (indices st) = Inr s" ..
    have e: "abs_errs s x y = Inr (map2 (\<lambda>u v. \<bar>s u - v\<bar>) x y)" by (rule abs_errs_eq [OF len])
    have "map2 (\<lambda>u v. \<bar>s u - v\<bar>) x y \<noteq> []" using ne len by (cases x; cases y) simp_all
    from np_argmax_total [OF this] obtain imax where
      "np_argmax (map2 (\<lambda>u v. \<bar>s u - v\<bar>) x y) = Inr imax" ..
    from greedy_body_eq [OF s e this, of tol] b show False by simp
  qed
  then obtain st' where l: "greedy_loop fit x y deg tol st0 = Inr st'"
    by (cases "greedy_loop fit x y deg tol st0") auto
  from good [OF greedy_loop_reach [OF l]] l show ?thesis by blast
qed

lemma u_greedy_tol:
  assumes "effective_tol y tol rel = Inr t"
  shows "u_greedy fit x y tol rel deg seeds =
     bind_err (greedy_loop fit x y deg t (greedy_start x deg seeds)) (\<lambda>st.
     bind_err (fit_knots fit x y deg (indices st)) (\<lambda>s.
     Inr (s, indices st, args st, errors st, t)))"
  using assms by (simp add: u_greedy_def bind_err_simps)

lemma greedy_loop_pass:
  assumes hd: "flag st = 0" "ctr st < int (length x)"
    and len: "length x = length y" and ne: "x \<noteq> []"
    and k: "fit_knots fit x y deg (indices st) = Inr s"
  shows "\<exists>errs imax. errs = map2 (\<lambda>u v. \<bar>s u - v\<bar>) x y
     \<and> imax < length errs \<and> errs ! imax = Max (set errs) \<and> (\<forall>j<imax. errs ! j < errs ! imax)
     \<and> (Max (set errs) < t \<longrightarrow>
           greedy_loop fit x y deg t st
             = Inr \<lparr>flag = 1, ctr = ctr st + 1, indices = sort (args st), args = args st,
                    errors = errors st\<rparr>)
     \<and> (\<not> Max (set errs) < t \<longrightarrow>
           greedy_loop fit x y deg t st
             = greedy_loop fit x y deg t
                 \<lparr>flag = 0, ctr = ctr st + 1, indices = sort (indices st @ [int imax]),
                  args = args st @ [int imax], errors = errors st @ [Max (set errs)]\<rparr>)"
proof -
  define errs where "errs = map2 (\<lambda>u v. \<bar>s u - v\<bar>) x y"
  have e: "abs_errs s x y = Inr errs" unfolding errs_def by (rule abs_errs_eq [OF len])
  have "errs \<noteq> []" using ne len by (cases x; cases y) (simp_all add: errs_def)
  from np_argmax_total [OF this] obtain imax where im: "np_argmax errs = Inr imax" ..
  note p = np_argmax_props [OF im] and mx = np_argmax_Max [OF im]
  note b = greedy_body_eq [OF k e im, of t]
  have c: "Max (set errs) < t \<longrightarrow>
           greedy_loop fit x y deg t st
             = Inr \<lparr>flag = 1, ctr = ctr st + 1, indices = sort (args st), args = args st,
                    errors = errors st\<rparr>"
  proof
    assume "Max (set errs) < t"
    with b mx have b': "greedy_body fit x y deg t st
        = Inr \<lparr>flag = 1, ctr = ctr st + 1, indices = sort (args st), args = args st,
                    errors = errors st\<rparr>"
      by simp
    have "greedy_loop fit x y deg t st = greedy_loop fit x y deg t
         \<lparr>flag = 1, ctr = ctr st + 1, indices = sort (args st), args = args st,
                    errors = errors st\<rparr>"
      by (rule greedy_loop_step [OF hd b'])
    also have "\<dots> = Inr \<lparr>flag = 1, ctr = ctr st + 1, indices = sort (args st), args = args st,
                    errors = errors st\<rparr>"
      by (rule greedy_loop_stop) simp
    finally show "greedy_loop fit x y deg t st
             = Inr \<lparr>flag = 1, ctr = ctr st + 1, indices = sort (args st), args = args st,
                    errors = errors st\<rparr>" .
  qed
  have n: "\<not> Max (set errs) < t \<longrightarrow>
           greedy_loop fit x y deg t st
             = greedy_loop fit x y deg t
                 \<lparr>flag = 0, ctr = ctr st + 1, indices = sort (indices st @ [int imax]),
                  args = args st @ [int imax], errors = errors st @ [Max (set errs)]\<rparr>"
  proof
    assume "\<not> Max (set errs) < t"
    with b mx hd(1) have b': "greedy_body fit x y deg t st
        = Inr \<lparr>flag = 0, ctr = ctr st + 1, indices = sort (indices st @ [int imax]),
                  args = args st @ [int imax], errors = errors st @ [Max (set errs)]\<rparr>"
      by simp
    show "greedy_loop fit x y deg t st
             = greedy_loop fit x y deg t
                 \<lparr>flag = 0, ctr = ctr st + 1, indices = sort (indices st @ [int imax]),
                  args = args st @ [int imax], errors = errors st @ [Max (set errs)]\<rparr>"
      by (rule greedy_loop_step [OF hd b'])
  qed
  from p mx c n errs_def show ?thesis by blast
qed

lemma greedy_eq:
  assumes u: "u_greedy fit x y tol rel deg seeds = Inr (s, idx, a, e, t)"
    and tx: "np_take x idx = Inr X" and ty: "np_take y idx = Inr Y" and ne: "idx \<noteq> []"
  shows "greedy fit self x y tol rel deg seeds =
     Inr (self\<lparr>ros_deg := deg, ros_rel := rel, ros_made := True, ros_tol_in := Some tol,
                ros_spline := Some s, ros_indices := Some idx, ros_args := Some a,
                ros_errors := Some e, ros_tol := Some t,
                ros_X := Some X, ros_Y := Some Y, ros_size := Some (int (length idx)),
                ros_compression := Some (real (length y) / real_of_int (int (length idx)))\<rparr>)"
proof -
  from u_greedy_InrD [OF u] have "effective_tol y tol rel = Inr t" by auto
  then obtain ymax where
    "(if rel then bind_err (np_max (map abs y)) (\<lambda>ymax.
                      if ymax > 0 then Inr ymax else Inl AllSamplesZero)
               else Inr 1) = Inr ymax"
    unfolding effective_tol_def bind_err_Inr_iff by blast
  then show ?thesis
    using ne by (simp add: greedy_def u tx ty bind_err_simps Let_def)
qed

lemma boundary_seed_small:
  assumes n: "int (length x) = deg + 1" and d: "deg = 1 \<or> deg = 2"
  shows "distinct (fst (u_seed x deg None))"
  using d
proof
  assume "deg = 1"
  with n show ?thesis by (simp add: u_seed_None seed_f_def)
next
  assume "deg = 2"
  with n u_seed_default_distinct [of 2 x] show ?thesis by simp
qed

lemma boundary_seed_large:
  assumes n: "int (length x) = deg + 1" and d: "3 \<le> deg"
  shows "\<not> distinct (fst (u_seed x deg None))"
  using u_seed_default_distinct [of deg x] n d by simp

subsection \<open>The effective tolerance\<close>

lemma effective_tol_abs: "effective_tol y tol False = Inr tol"
  by (simp add: effective_tol_def bind_err_simps)

lemma effective_tol_rel:
  assumes "y \<noteq> []"
  shows "effective_tol y tol True =
     (if Max (set (map abs y)) = 0 then Inl AllSamplesZero
      else Inr (tol * Max (set (map abs y))))"
proof -
  have "np_max (map abs y) = Inr (Max (set (map abs y)))" using assms by (intro np_max_Max) simp
  moreover note Max_abs_nonneg [OF assms]
  ultimately show ?thesis by (auto simp: effective_tol_def bind_err_simps)
qed

lemma effective_tol_fail:
  "effective_tol y tol rel = Inl e \<Longrightarrow> u_greedy fit x y tol rel deg seeds = Inl e"
  by (simp add: u_greedy_def bind_err_simps)

lemma greedy_rel_fail:
  assumes "effective_tol y tol True = Inl AllSamplesZero"
  shows "greedy fit self x y tol True deg seeds = Inl AllSamplesZero"
proof -
  from assms have "bind_err (np_max (map abs y)) (\<lambda>ymax.
       if ymax > 0 then Inr ymax else Inl AllSamplesZero) = Inl AllSamplesZero"
    by (cases "np_max (map abs y)") (auto simp: effective_tol_def bind_err_simps split: if_splits)
  then show ?thesis by (simp add: greedy_def bind_err_simps)
qed

subsection \<open>The errors a reduction can end with\<close>

lemma np_take_error: "np_take a idx = Inl e \<Longrightarrow> e = IndexError"
  by (simp add: np_take_def Let_def split: if_splits)

lemma fit_knots_error: "fit_knots fit x y deg idx = Inl e \<Longrightarrow> e = IndexError \<or> e = FitError"
  by (auto simp: fit_knots_def dest!: bind_err_InlD np_take_error split: option.splits)

lemma abs_errs_error: "abs_errs s x y = Inl e \<Longrightarrow> e = ValueError"
  by (auto simp: abs_errs_def np_binop_def dest!: bind_err_InlD split: if_splits)

lemma np_argmax_error: "np_argmax a = Inl e \<Longrightarrow> e = ValueError"
  by (simp add: np_argmax_def split: list.splits)

lemma greedy_body_error:
  "greedy_body fit x y deg tol st = Inl e \<Longrightarrow> e = IndexError \<or> e = FitError \<or> e = ValueError"
  by (auto simp: greedy_body_def Let_def
      dest!: bind_err_InlD fit_knots_error abs_errs_error np_argmax_error)

lemma greedy_loop_error:
  "greedy_loop fit x y deg tol st = Inl e \<Longrightarrow> e = IndexError \<or> e = FitError \<or> e = ValueError"
proof (induction fit x y deg tol st rule: greedy_loop.induct)
  case (1 fit x y deg tol st)
  show ?case
  proof (cases "flag st = 0 \<and> ctr st < int (length x)")
    case False
    with "1.prems" show ?thesis by (simp add: greedy_loop_stop)
  next
    case True
    show ?thesis
    proof (cases "greedy_body fit x y deg tol st")
      case (Inl e')
      with True "1.prems" have "e' = e" by (simp add: greedy_loop_fail)
      with Inl greedy_body_error show ?thesis by blast
    next
      case (Inr st1)
      with True "1.prems" have "greedy_loop fit x y deg tol st1 = Inl e"
        by (simp add: greedy_loop_step)
      from "1.IH" [OF True Inr this] show ?thesis .
    qed
  qed
qed

lemma np_max_error: "np_max a = Inl e \<Longrightarrow> e = ValueError"
  by (simp add: np_max_def split: list.splits)

lemma effective_tol_error:
  "effective_tol y tol rel = Inl e \<Longrightarrow> e = ValueError \<or> e = AllSamplesZero"
  by (auto simp: effective_tol_def dest!: bind_err_InlD np_max_error split: if_splits)

lemma u_greedy_error:
  "u_greedy fit x y tol rel deg seeds = Inl e
   \<Longrightarrow> e = IndexError \<or> e = FitError \<or> e = ValueError \<or> e = AllSamplesZero"
  by (auto simp: u_greedy_def
      dest!: bind_err_InlD effective_tol_error greedy_loop_error fit_knots_error)

lemma greedy_error:
  "greedy fit self x y tol rel deg seeds = Inl e
   \<Longrightarrow> e = IndexError \<or> e = FitError \<or> e = ValueError \<or> e = AllSamplesZero
       \<or> e = ZeroDivisionError"
  by (auto simp: greedy_def Let_def
      dest!: bind_err_InlD np_max_error u_greedy_error np_take_error split: if_splits prod.splits)

subsection \<open>The piecewise linear fitter\<close>

lemma pw_linear_knot:
  assumes "sorted_wrt (<) (map fst ps)" "(c, w) \<in> set ps"
  shows "pw_linear ps c = w"
  using assms
proof (induction ps c rule: pw_linear.induct)
  case (1 t)
  then show ?case by simp
next
  case (2 a u t)
  then show ?case by simp
next
  case (3 a u b v ps t)
  from "3.prems"(1) have ab: "a < b" by simp
  from "3.prems"(2) consider "(t, w) = (a, u)" | "(t, w) = (b, v)" | "(t, w) \<in> set ps" by auto
  then show ?case
  proof cases
    case 1
    with ab show ?thesis by simp
  next
    case 2
    with ab show ?thesis by simp
  next
    case 3
    then have ne: "ps \<noteq> []" by auto
    from 3 "3.prems"(1) have "b < t" by force
    then have nb: "\<not> (t \<le> b \<or> ps = [])" using ne by simp
    have "pw_linear ((b, v) # ps) t = w"
    proof (rule "3.IH" [OF nb])
      show "sorted_wrt (<) (map fst ((b, v) # ps))" using "3.prems"(1) by simp
      show "(t, w) \<in> set ((b, v) # ps)" using 3 by simp
    qed
    with nb show ?thesis by simp
  qed
qed

lemma linear_fit_interpolates: "interpolates linear_fit"
  unfolding interpolates_def
proof (intro allI impI)
  fix xs ys deg s j
  assume f: "linear_fit xs ys deg = Some s" and j: "j < length xs \<and> j < length ys"
  from f have l: "length xs = length ys" and st: "sorted_wrt (<) xs"
    and s: "s = pw_linear (zip xs ys)"
    by (auto simp: linear_fit_def split: if_splits)
  have "sorted_wrt (<) (map fst (zip xs ys))" using l st by simp
  moreover have "(xs ! j, ys ! j) \<in> set (zip xs ys)"
    using j l by (metis in_set_zip fst_conv snd_conv)
  ultimately show "s (xs ! j) = ys ! j" unfolding s by (rule pw_linear_knot)
qed

lemma linear_fit_accepts: "accepts_increasing linear_fit deg"
  by (simp add: accepts_increasing_def linear_fit_def)

section \<open>Runs on concrete data\<close>

text \<open>All runs use the piecewise linear fitter. The first is on the abscissas 0 to 4 and
  the ordinates 0, 3, 0, 3, 0 with degree 1. The seed is 0, 4; the first pass finds the
  error 3 at index 1; the second pass finds the error 2 at index 2.\<close>

lemma tie_fit:
  "fit_knots linear_fit [0, 1, 2, 3, 4] [0, 3, 0, 3, 0] 1 [0, 4] = Inr (pw_linear [(0, 0), (4, 0)])"
  by (simp add: fit_knots_def np_take_def linear_fit_def bind_err_simps)

lemma tie_errs:
  "abs_errs (pw_linear [(0, 0), (4, 0)]) [0, 1, 2, 3, 4] [0, 3, 0, 3, 0] = Inr [0, 3, 0, 3, 0]"
  by (simp add: abs_errs_def np_binop_def bind_err_simps)

lemma tie_argmax: "np_argmax [0, 3, 0, 3, 0] = Inr 1"
  by (simp add: np_argmax_def)

lemma zz_start:
  "greedy_start [0, 1, 2, 3, 4::real] 1 None
     = \<lparr>flag = 0, ctr = 3, indices = [0, 4], args = [0, 4], errors = []\<rparr>"
  by (simp add: greedy_start_def u_seed_def seed_f_def)

lemma zz_pass1:
  assumes "\<not> 3 < tol"
  shows "greedy_body linear_fit [0, 1, 2, 3, 4] [0, 3, 0, 3, 0] 1 tol
     \<lparr>flag = 0, ctr = 3, indices = [0, 4], args = [0, 4], errors = []\<rparr>
   = Inr \<lparr>flag = 0, ctr = 4, indices = [0, 1, 4], args = [0, 4, 1], errors = [3]\<rparr>"
proof -
  have a: "fit_knots linear_fit [0, 1, 2, 3, 4] [0, 3, 0, 3, 0] 1
      (indices \<lparr>flag = 0, ctr = 3, indices = [0, 4], args = [0, 4], errors = []\<rparr>)
     = Inr (pw_linear [(0, 0), (4, 0)])"
    using tie_fit by simp
  show ?thesis using greedy_body_eq [OF a tie_errs tie_argmax, of tol] assms by simp
qed

lemma zz_fit2:
  "fit_knots linear_fit [0, 1, 2, 3, 4] [0, 3, 0, 3, 0] 1 [0, 1, 4]
     = Inr (pw_linear [(0, 0), (1, 3), (4, 0)])"
  by (simp add: fit_knots_def np_take_def linear_fit_def bind_err_simps)

lemma zz_errs2:
  "abs_errs (pw_linear [(0, 0), (1, 3), (4, 0)]) [0, 1, 2, 3, 4] [0, 3, 0, 3, 0]
     = Inr [0, 0, 2, 2, 0]"
  by (simp add: abs_errs_def np_binop_def bind_err_simps)

lemma zz_argmax2: "np_argmax [0, 0, 2, 2, 0] = Inr 2"
  by (simp add: np_argmax_def)

lemma zz_reach1:
  assumes "\<not> 3 < tol"
  shows "greedy_reach linear_fit [0, 1, 2, 3, 4] [0, 3, 0, 3, 0] 1 tol
     (greedy_start [0, 1, 2, 3, 4::real] 1 None)
     \<lparr>flag = 0, ctr = 4, indices = [0, 1, 4], args = [0, 4, 1], errors = [3]\<rparr>"
  unfolding zz_start
  by (rule reach_pass [OF reach_start _ _ zz_pass1 [OF assms]]) simp_all

lemma zz_greedy:
  "\<exists>m. greedy linear_fit (blank 1 False) [0, 1, 2, 3, 4] [0, 3, 0, 3, 0] (5 / 2) False 1 None = Inr m
     \<and> ros_made m \<and> ros_spline m = Some (pw_linear [(0, 0), (1, 3), (4, 0)])
     \<and> ros_tol m = Some (5 / 2) \<and> ros_X m = Some [0, 1, 4] \<and> ros_Y m = Some [0, 3, 0]"
proof -
  let ?st = "\<lparr>flag = 0, ctr = 4, indices = [0, 1, 4], args = [0, 4, 1], errors = [3::real]\<rparr>"
  have b: "greedy_body linear_fit [0, 1, 2, 3, 4] [0, 3, 0, 3, 0] 1 (5 / 2) ?st
      = Inr \<lparr>flag = 1, ctr = 5, indices = [0, 1, 4], args = [0, 4, 1], errors = [3]\<rparr>"
    using greedy_body_eq [of linear_fit _ _ 1 ?st, OF _ zz_errs2 zz_argmax2, of "5 / 2"] zz_fit2
    by simp
  have "greedy_loop linear_fit [0, 1, 2, 3, 4] [0, 3, 0, 3, 0] 1 (5 / 2)
          (greedy_start [0, 1, 2, 3, 4::real] 1 None)
       = greedy_loop linear_fit [0, 1, 2, 3, 4] [0, 3, 0, 3, 0] 1 (5 / 2) ?st"
    by (rule greedy_reach_loop [OF zz_reach1]) simp
  also have "\<dots> = greedy_loop linear_fit [0, 1, 2, 3, 4] [0, 3, 0, 3, 0] 1 (5 / 2)
       \<lparr>flag = 1, ctr = 5, indices = [0, 1, 4], args = [0, 4, 1], errors = [3]\<rparr>"
    by (rule greedy_loop_step [OF _ _ b]) simp_all
  also have "\<dots> = Inr \<lparr>flag = 1, ctr = 5, indices = [0, 1, 4], args = [0, 4, 1], errors = [3]\<rparr>"
    by (rule greedy_loop_stop) simp
  finally have l: "greedy_loop linear_fit [0, 1, 2, 3, 4] [0, 3, 0, 3, 0] 1 (5 / 2)
          (greedy_start [0, 1, 2, 3, 4::real] 1 None)
       = Inr \<lparr>flag = 1, ctr = 5, indices = [0, 1, 4], args = [0, 4, 1], errors = [3]\<rparr>" .
  have t: "effective_tol [0, 3, 0, 3, 0] (5 / 2) False = Inr (5 / 2)"
    by (simp add: effective_tol_def bind_err_simps)
  have u: "u_greedy linear_fit [0, 1, 2, 3, 4] [0, 3, 0, 3, 0] (5 / 2) False 1 None
     = Inr (pw_linear [(0, 0), (1, 3), (4, 0)], [0, 1, 4], [0, 4, 1], [3], 5 / 2)"
    using u_greedy_eq [OF t l] zz_fit2 by simp
  show ?thesis
    by (simp add: greedy_def u bind_err_simps np_take_def)
qed

lemma zz_loop_exhaust:
  "greedy_loop linear_fit [0, 1, 2, 3, 4] [0, 3, 0, 3, 0] 1 1
          (greedy_start [0, 1, 2, 3, 4::real] 1 None)
       = Inr \<lparr>flag = 0, ctr = 5, indices = [0, 1, 2, 4], args = [0, 4, 1, 2], errors = [3, 2]\<rparr>"
proof -
  let ?st = "\<lparr>flag = 0, ctr = 4, indices = [0, 1, 4], args = [0, 4, 1], errors = [3::real]\<rparr>"
  let ?st' = "\<lparr>flag = 0, ctr = 5, indices = [0, 1, 2, 4], args = [0, 4, 1, 2], errors = [3, 2::real]\<rparr>"
  have b: "greedy_body linear_fit [0, 1, 2, 3, 4] [0, 3, 0, 3, 0] 1 1 ?st = Inr ?st'"
    using greedy_body_eq [of linear_fit _ _ 1 ?st, OF _ zz_errs2 zz_argmax2, of 1] zz_fit2
    by simp
  have "greedy_loop linear_fit [0, 1, 2, 3, 4] [0, 3, 0, 3, 0] 1 1
          (greedy_start [0, 1, 2, 3, 4::real] 1 None)
       = greedy_loop linear_fit [0, 1, 2, 3, 4] [0, 3, 0, 3, 0] 1 1 ?st"
    by (rule greedy_reach_loop [OF zz_reach1]) simp
  also have "\<dots> = greedy_loop linear_fit [0, 1, 2, 3, 4] [0, 3, 0, 3, 0] 1 1 ?st'"
    by (rule greedy_loop_step [OF _ _ b]) simp_all
  also have "\<dots> = Inr ?st'" by (rule greedy_loop_stop) simp
  finally show ?thesis .
qed

lemma zz_fit3:
  "fit_knots linear_fit [0, 1, 2, 3, 4] [0, 3, 0, 3, 0] 1 [0, 1, 2, 4]
     = Inr (pw_linear [(0, 0), (1, 3), (2, 0), (4, 0)])"
  by (simp add: fit_knots_def np_take_def linear_fit_def bind_err_simps)

text \<open>Constant ordinates with degree 2 and tolerance 0: every error is 0.\<close>

lemma flat_start:
  "greedy_start [0, 1, 2, 3, 4::real] 2 None
     = \<lparr>flag = 0, ctr = 4, indices = [0, 2, 4], args = [0, 2, 4], errors = []\<rparr>"
  by (simp add: greedy_start_def u_seed_def seed_f_def)

lemma flat_fit:
  "fit_knots linear_fit [0, 1, 2, 3, 4] [5, 5, 5, 5, 5] 2 [0, 2, 4]
     = Inr (pw_linear [(0, 5), (2, 5), (4, 5)])"
  by (simp add: fit_knots_def np_take_def linear_fit_def bind_err_simps)

lemma flat_errs:
  "abs_errs (pw_linear [(0, 5), (2, 5), (4, 5)]) [0, 1, 2, 3, 4] [5, 5, 5, 5, 5]
     = Inr [0, 0, 0, 0, 0]"
  by (simp add: abs_errs_def np_binop_def bind_err_simps)

lemma flat_argmax: "np_argmax [0, 0, 0, 0, 0] = Inr 0"
  by (simp add: np_argmax_def)

lemma flat_pass:
  "greedy_body linear_fit [0, 1, 2, 3, 4] [5, 5, 5, 5, 5] 2 0
     \<lparr>flag = 0, ctr = 4, indices = [0, 2, 4], args = [0, 2, 4], errors = []\<rparr>
   = Inr \<lparr>flag = 0, ctr = 5, indices = [0, 0, 2, 4], args = [0, 2, 4, 0], errors = [0]\<rparr>"
proof -
  have a: "fit_knots linear_fit [0, 1, 2, 3, 4] [5, 5, 5, 5, 5] 2
      (indices \<lparr>flag = 0, ctr = 4, indices = [0, 2, 4], args = [0, 2, 4], errors = []\<rparr>)
     = Inr (pw_linear [(0, 5), (2, 5), (4, 5)])"
    using flat_fit by simp
  show ?thesis using greedy_body_eq [OF a flat_errs flat_argmax, of 0] by simp
qed

text \<open>Ordinates on a straight line, degree 1, tolerance 0: the first fit is exact, every
  error is 0, index 0 is selected again, and the second fit is handed the knots 0, 0, 4.\<close>

lemma line_start:
  "greedy_start [0, 1, 2, 3, 4::real] 1 None
     = \<lparr>flag = 0, ctr = 3, indices = [0, 4], args = [0, 4], errors = []\<rparr>"
  by (simp add: greedy_start_def u_seed_def seed_f_def)

lemma line_fit:
  "fit_knots linear_fit [0, 1, 2, 3, 4] [0, 2, 4, 6, 8] 1 [0, 4] = Inr (pw_linear [(0, 0), (4, 8)])"
  by (simp add: fit_knots_def np_take_def linear_fit_def bind_err_simps)

lemma line_errs:
  "abs_errs (pw_linear [(0, 0), (4, 8)]) [0, 1, 2, 3, 4] [0, 2, 4, 6, 8] = Inr [0, 0, 0, 0, 0]"
  by (simp add: abs_errs_def np_binop_def bind_err_simps)

lemma line_pass:
  "greedy_body linear_fit [0, 1, 2, 3, 4] [0, 2, 4, 6, 8] 1 0
     \<lparr>flag = 0, ctr = 3, indices = [0, 4], args = [0, 4], errors = []\<rparr>
   = Inr \<lparr>flag = 0, ctr = 4, indices = [0, 0, 4], args = [0, 4, 0], errors = [0]\<rparr>"
proof -
  have a: "fit_knots linear_fit [0, 1, 2, 3, 4] [0, 2, 4, 6, 8] 1
      (indices \<lparr>flag = 0, ctr = 3, indices = [0, 4], args = [0, 4], errors = []\<rparr>)
     = Inr (pw_linear [(0, 0), (4, 8)])"
    using line_fit by simp
  show ?thesis using greedy_body_eq [OF a line_errs flat_argmax, of 0] by simp
qed

lemma line_fit2:
  "fit_knots linear_fit [0, 1, 2, 3, 4] [0, 2, 4, 6, 8] 1 [0, 0, 4] = Inl FitError"
  by (simp add: fit_knots_def np_take_def linear_fit_def bind_err_simps)

lemma line_greedy:
  "u_greedy linear_fit [0, 1, 2, 3, 4] [0, 2, 4, 6, 8] 0 False 1 None = Inl FitError"
proof -
  let ?st1 = "\<lparr>flag = 0, ctr = 4, indices = [0, 0, 4], args = [0, 4, 0], errors = [0::real]\<rparr>"
  have "greedy_body linear_fit [0, 1, 2, 3, 4] [0, 2, 4, 6, 8] 1 0 ?st1 = Inl FitError"
    by (rule greedy_body_fit_fail) (simp add: line_fit2)
  then have "greedy_loop linear_fit [0, 1, 2, 3, 4] [0, 2, 4, 6, 8] 1 0 ?st1 = Inl FitError"
    by (intro greedy_loop_fail) simp_all
  moreover have "greedy_loop linear_fit [0, 1, 2, 3, 4] [0, 2, 4, 6, 8] 1 0
       (greedy_start [0, 1, 2, 3, 4::real] 1 None)
     = greedy_loop linear_fit [0, 1, 2, 3, 4] [0, 2, 4, 6, 8] 1 0 ?st1"
    unfolding line_start by (rule greedy_loop_step [OF _ _ line_pass]) simp_all
  ultimately show ?thesis
    by (simp add: u_greedy_def effective_tol_abs bind_err_simps)
qed

text \<open>Degree 5 on eight points: the seed is 0, 1, 3, 5, 7, 7 and the first fit is handed
  it.\<close>

lemma oct_start:
  "greedy_start [0, 1, 2, 3, 4, 5, 6, 7::real] 5 None
     = \<lparr>flag = 0, ctr = 7, indices = [0, 1, 3, 5, 7, 7], args = [0, 1, 3, 5, 7, 7], errors = []\<rparr>"
  by (simp add: greedy_start_def u_seed_def seed_f_def upto.simps)

lemma oct_fit:
  "fit_knots linear_fit [0, 1, 2, 3, 4, 5, 6, 7] [0, 1, 4, 9, 16, 25, 36, 49] 5 [0, 1, 3, 5, 7, 7]
     = Inl FitError"
  by (simp add: fit_knots_def np_take_def linear_fit_def bind_err_simps)

lemma oct_greedy:
  "u_greedy linear_fit [0, 1, 2, 3, 4, 5, 6, 7] [0, 1, 4, 9, 16, 25, 36, 49] (1 / 1000000) False 5 None
     = Inl FitError"
proof -
  have "greedy_body linear_fit [0, 1, 2, 3, 4, 5, 6, 7] [0, 1, 4, 9, 16, 25, 36, 49] 5 (1 / 1000000)
      \<lparr>flag = 0, ctr = 7, indices = [0, 1, 3, 5, 7, 7], args = [0, 1, 3, 5, 7, 7], errors = []\<rparr>
     = Inl FitError"
    by (rule greedy_body_fit_fail) (simp add: oct_fit)
  then have "greedy_loop linear_fit [0, 1, 2, 3, 4, 5, 6, 7] [0, 1, 4, 9, 16, 25, 36, 49] 5 (1 / 1000000)
      (greedy_start [0, 1, 2, 3, 4, 5, 6, 7::real] 5 None) = Inl FitError"
    unfolding oct_start by (intro greedy_loop_fail) simp_all
  then show ?thesis by (simp add: u_greedy_def effective_tol_abs bind_err_simps)
qed

text \<open>Degree 5 on six points: the seed is 0, 0, 1, 3, 4, 5, no pass is made, and the last
  fit is handed the seed.\<close>

lemma hex_start:
  "greedy_start [0, 1, 2, 3, 4, 5::real] 5 None
     = \<lparr>flag = 0, ctr = 7, indices = [0, 0, 1, 3, 4, 5], args = [0, 0, 1, 3, 4, 5], errors = []\<rparr>"
  by (simp add: greedy_start_def u_seed_def seed_f_def upto.simps)

lemma hex_fit:
  "fit_knots linear_fit [0, 1, 2, 3, 4, 5] [0, 1, 4, 9, 16, 25] 5 [0, 0, 1, 3, 4, 5] = Inl FitError"
  by (simp add: fit_knots_def np_take_def linear_fit_def bind_err_simps)

lemma hex_greedy:
  "u_greedy linear_fit [0, 1, 2, 3, 4, 5] [0, 1, 4, 9, 16, 25] (1 / 1000000) False 5 None
     = Inl FitError"
proof -
  have "greedy_loop linear_fit [0, 1, 2, 3, 4, 5] [0, 1, 4, 9, 16, 25] 5 (1 / 1000000)
      (greedy_start [0, 1, 2, 3, 4, 5::real] 5 None)
     = Inr \<lparr>flag = 0, ctr = 7, indices = [0, 0, 1, 3, 4, 5], args = [0, 0, 1, 3, 4, 5], errors = []\<rparr>"
    unfolding hex_start by (rule greedy_loop_stop) simp
  then show ?thesis
    by (simp add: u_greedy_def effective_tol_abs bind_err_simps hex_fit)
qed

section \<open>The claims\<close>

subsection \<open>C1: the convergence trim\<close>

text \<open>
  C1. Let the loop, run with the effective tolerance \<open>tol\<close>, be at its head in state \<open>st\<close>,
  and let the pass that starts there find a largest error below \<open>tol\<close>. Then that pass
  ends with \<open>flag = 1\<close>, with \<open>args\<close> and \<open>errors\<close> as they were before the pass (the
  index and the error it appended are taken off again) and with \<open>indices = sort args\<close>;
  the loop stops there. The object that \<^verbatim>\<open>greedy\<close> builds has these \<open>args\<close>, \<open>indices\<close>
  and \<open>errors\<close>, and its \<open>size\<close> is their length. The knots delivered are those of \<open>st\<close>:
  as a multiset always, and as the same list when the seed was the default one or
  \<open>st\<close> is not the first state.
\<close>

theorem convergence_trim:
  assumes tl: "effective_tol y tol0 rel = Inr tol"
    and rch: "greedy_reach fit x y deg tol (greedy_start x deg seeds) st"
    and hd: "flag st = 0" "ctr st < int (length x)"
    and pass: "fit_knots fit x y deg (indices st) = Inr s" "abs_errs s x y = Inr errs"
      "np_argmax errs = Inr imax"
    and conv: "errs ! imax < tol"
    and m: "greedy fit self x y tol0 rel deg seeds = Inr m"
  shows "greedy_body fit x y deg tol st
           = Inr (st\<lparr>flag := 1, ctr := ctr st + 1, indices := sort (args st)\<rparr>)
       \<and> greedy_loop fit x y deg tol (greedy_start x deg seeds)
           = Inr (st\<lparr>flag := 1, ctr := ctr st + 1, indices := sort (args st)\<rparr>)
       \<and> ros_args m = Some (args st) \<and> ros_indices m = Some (sort (args st))
       \<and> ros_errors m = Some (errors st)
       \<and> ros_size m = Some (int (length (args st)))
       \<and> mset (sort (args st)) = mset (indices st)
       \<and> (seeds = None \<or> st \<noteq> greedy_start x deg seeds \<longrightarrow> sort (args st) = indices st)"
proof -
  let ?st' = "st\<lparr>flag := 1, ctr := ctr st + 1, indices := sort (args st)\<rparr>"
  have b: "greedy_body fit x y deg tol st = Inr ?st'"
    using greedy_body_eq [OF pass, of tol] conv by simp
  have "greedy_loop fit x y deg tol (greedy_start x deg seeds) = greedy_loop fit x y deg tol st"
    by (rule greedy_reach_loop [OF rch])
  also have "\<dots> = greedy_loop fit x y deg tol ?st'" by (rule greedy_loop_step [OF hd b])
  also have "\<dots> = Inr ?st'" by (rule greedy_loop_stop) simp
  finally have l: "greedy_loop fit x y deg tol (greedy_start x deg seeds) = Inr ?st'" .
  from greedy_InrD [OF m] obtain s' idx a e t X Y where
    u: "u_greedy fit x y tol0 rel deg seeds = Inr (s', idx, a, e, t)"
    and m': "ros_args m = Some a" "ros_indices m = Some idx" "ros_errors m = Some e"
      "ros_size m = Some (int (length idx))"
    by auto
  from u_greedy_InrD [OF u] tl l have r: "idx = sort (args st)" "a = args st" "e = errors st"
    by auto
  have s0: "mset (indices (greedy_start x deg seeds)) = mset (args (greedy_start x deg seeds))"
    by (simp add: greedy_start_simps)
  from greedy_reach_knots [OF rch s0]
  have k: "st = greedy_start x deg seeds \<or> indices st = sort (args st)" .
  then have ms: "mset (sort (args st)) = mset (indices st)"
    by (auto simp: greedy_start_simps)
  have "seeds = None \<or> st \<noteq> greedy_start x deg seeds \<longrightarrow> sort (args st) = indices st"
  proof
    assume a: "seeds = None \<or> st \<noteq> greedy_start x deg seeds"
    show "sort (args st) = indices st"
    proof (cases "st = greedy_start x deg seeds")
      case True
      with a have "seeds = None" by simp
      with True show ?thesis
        by (simp add: greedy_start_simps u_seed_default_sorted sorted_sort_id del: sort_key_simps)
    next
      case False
      with k show ?thesis by simp
    qed
  qed
  with b l m' r ms show ?thesis by simp
qed

text \<open>The run on five points with tolerance 5/2 converges in its second pass.\<close>

theorem convergence_trim_witness:
  "\<exists>m. greedy linear_fit (blank 1 False) [0, 1, 2, 3, 4] [0, 3, 0, 3, 0] (5 / 2) False 1 None = Inr m
     \<and> greedy_loop linear_fit [0, 1, 2, 3, 4] [0, 3, 0, 3, 0] 1 (5 / 2)
          (greedy_start [0, 1, 2, 3, 4::real] 1 None)
       = Inr \<lparr>flag = 1, ctr = 5, indices = [0, 1, 4], args = [0, 4, 1], errors = [3]\<rparr>
     \<and> ros_args m = Some [0, 4, 1] \<and> ros_indices m = Some [0, 1, 4]
     \<and> ros_errors m = Some [3] \<and> ros_size m = Some 3"
proof -
  let ?st = "\<lparr>flag = 0, ctr = 4, indices = [0, 1, 4], args = [0, 4, 1], errors = [3::real]\<rparr>"
  from zz_greedy obtain m where
    m: "greedy linear_fit (blank 1 False) [0, 1, 2, 3, 4] [0, 3, 0, 3, 0] (5 / 2) False 1 None = Inr m"
    by blast
  have tl: "effective_tol [0, 3, 0, 3, 0] (5 / 2) False = Inr (5 / 2)"
    by (simp add: effective_tol_def bind_err_simps)
  have rch: "greedy_reach linear_fit [0, 1, 2, 3, 4] [0, 3, 0, 3, 0] 1 (5 / 2)
     (greedy_start [0, 1, 2, 3, 4::real] 1 None) ?st"
    by (rule zz_reach1) simp
  have hd: "flag ?st = 0" "ctr ?st < int (length [0, 1, 2, 3, 4::real])" by simp_all
  have f: "fit_knots linear_fit [0, 1, 2, 3, 4] [0, 3, 0, 3, 0] 1 (indices ?st)
     = Inr (pw_linear [(0, 0), (1, 3), (4, 0)])"
    using zz_fit2 by simp
  have conv: "[0, 0, 2, 2, 0] ! 2 < (5 / 2 :: real)" by simp
  from convergence_trim [OF tl rch hd f zz_errs2 zz_argmax2 conv m] m
  show ?thesis by (intro exI [of _ m]) simp
qed

subsection \<open>C2: the default seed\<close>

text \<open>
  C2, as the code has it. For a degree \<open>d \<ge> 2\<close> and a domain of length \<open>n > d\<close> the
  default seed is the sorted concatenation of \<open>[0, n - 1]\<close> with the \<open>d - 1\<close> points
  \<open>i * n div (d - 1) + n div (2 * (d - 1))\<close>, \<open>i = 0, \<dots>, d - 2\<close>. It has \<open>d + 1\<close>
  entries, is sorted ascending, contains \<open>0\<close> and \<open>n - 1\<close> and stays inside the domain.
  Nothing removes duplicates (\<^verbatim>\<open>np.hstack\<close> and \<^verbatim>\<open>np.sort\<close> keep them): the entries
  are pairwise different exactly when \<open>n > 2 * (d - 1)\<close>. The trace starts empty.
\<close>

theorem default_seed_shape:
  assumes "2 \<le> d" "d < int (length x)"
  shows "fst (u_seed x d None) =
           sort ([0, int (length x) - 1] @
                 map (\<lambda>i. i * int (length x) div (d - 1) + int (length x) div (2 * (d - 1))) [0..d - 2])
       \<and> snd (u_seed x d None) = []
       \<and> int (length (fst (u_seed x d None))) = d + 1
       \<and> sorted (fst (u_seed x d None))
       \<and> 0 \<in> set (fst (u_seed x d None))
       \<and> int (length x) - 1 \<in> set (fst (u_seed x d None))
       \<and> set (fst (u_seed x d None)) \<subseteq> {0..int (length x) - 1}
       \<and> (distinct (fst (u_seed x d None)) \<longleftrightarrow> 2 * (d - 1) < int (length x))"
proof -
  have ne: "x \<noteq> []" using assms by auto
  have "d - 1 - 1 = d - 2" by simp
  then have "fst (u_seed x d None) =
           sort ([0, int (length x) - 1] @
                 map (\<lambda>i. i * int (length x) div (d - 1) + int (length x) div (2 * (d - 1))) [0..d - 2])"
    by (simp add: u_seed_None seed_f_def del: sort_key_simps)
  moreover have "int (length (fst (u_seed x d None))) = d + 1"
    using assms by (simp add: u_seed_default_length)
  moreover have "0 \<in> set (fst (u_seed x d None))" "int (length x) - 1 \<in> set (fst (u_seed x d None))"
    by (simp_all add: u_seed_default_set)
  ultimately show ?thesis
    using u_seed_None(2) [of x d] u_seed_default_sorted [of x d] u_seed_default_range [OF ne, of d]
      u_seed_default_distinct [OF assms(1), of x]
    by blast
qed

text \<open>Degree 2 on five points: the seed is 0, 2, 4.\<close>

theorem default_seed_shape_witness:
  "(2::int) \<le> 2 \<and> 2 < int (length [0, 1, 2, 3, 4::real])
   \<and> fst (u_seed [0, 1, 2, 3, 4::real] 2 None) = [0, 2, 4]
   \<and> snd (u_seed [0, 1, 2, 3, 4::real] 2 None) = []
   \<and> distinct (fst (u_seed [0, 1, 2, 3, 4::real] 2 None))"
  using default_seed_shape [of 2 "[0, 1, 2, 3, 4::real]"] by simp

text \<open>The claim as the specification states it asks for \<open>d + 1\<close> unique indices whenever
  \<open>d \<ge> 2\<close> and \<open>n > d\<close>. Degree 3 on four points gives 0, 1, 3, 3.\<close>

theorem default_seed_unique_counterexample:
  "(2::int) \<le> 3 \<and> 3 < int (length [0, 1, 2, 3::real])
   \<and> fst (u_seed [0, 1, 2, 3::real] 3 None) = [0, 1, 3, 3]
   \<and> \<not> distinct (fst (u_seed [0, 1, 2, 3::real] 3 None))"
  by (simp add: u_seed_def seed_f_def upto.simps)

subsection \<open>C3: termination\<close>

text \<open>
  C3, as the code has it. \<open>greedy_loop\<close> is a total function, so the loop always stops.
  Let \<open>x\<close> and \<open>y\<close> have the same positive length, let the effective tolerance \<open>t\<close>
  exist (the data are not all zero in relative mode) and let the seed be the default one,
  or sorted and inside the domain. Then \<^verbatim>\<open>_greedy\<close> raises no error of its own: it ends
  with the error of the fitter or with a result. In a result every error of the trace is
  at least \<open>t\<close>, and either the loop has converged, and the errors of the spline returned
  are all strictly below \<open>t\<close>, or it has run until \<open>ctr\<close> reached the length of the data,
  and the number of knots is that length less one (or the size of the seed, if larger).
  The loop can hand the fitter a knot twice, and a fitter that refuses that ends the
  reduction with its error. That does not happen, and a result is returned, when the
  fitter interpolates and accepts increasing abscissas, \<open>x\<close> is strictly increasing,
  \<open>t\<close> is positive and the seed indices are unique, not negative and more than the degree.
\<close>

theorem greedy_terminates:
  assumes len: "length x = length y" and ne: "x \<noteq> []"
    and tl: "effective_tol y tol rel = Inr t"
    and sd: "case seeds of None \<Rightarrow> True
             | Some sd \<Rightarrow> sorted sd \<and> (\<forall>i\<in>set sd. - int (length x) \<le> i \<and> i < int (length x))"
  shows "(u_greedy fit x y tol rel deg seeds = Inl FitError
     \<or> (\<exists>s idx a e. u_greedy fit x y tol rel deg seeds = Inr (s, idx, a, e, t)
          \<and> (\<forall>v\<in>set e. t \<le> v)
          \<and> ((\<exists>errs. abs_errs s x y = Inr errs \<and> (\<forall>v\<in>set errs. v < t))
             \<or> int (length idx)
                = max (int (length (fst (u_seed x deg seeds)))) (int (length x) - 1))))
   \<and> (interpolates fit \<and> accepts_increasing fit deg \<and> sorted_wrt (<) x \<and> 0 < t
        \<and> distinct (fst (u_seed x deg seeds)) \<and> (\<forall>i\<in>set (fst (u_seed x deg seeds)). 0 \<le> i)
        \<and> deg < int (length (fst (u_seed x deg seeds)))
      \<longrightarrow> u_greedy fit x y tol rel deg seeds \<noteq> Inl FitError)"
proof -
  let ?st0 = "greedy_start x deg seeds"
  have rng0: "\<forall>i\<in>set (indices ?st0). - int (length x) \<le> i \<and> i < int (length x)"
  proof (cases seeds)
    case None
    from u_seed_default_range [OF ne, of deg] show ?thesis
      by (auto simp: greedy_start_simps None)
  next
    case (Some sd')
    with sd show ?thesis by (simp add: greedy_start_simps u_seed_def)
  qed
  have "sorted (indices ?st0)"
  proof (cases seeds)
    case None
    then show ?thesis by (simp add: greedy_start_simps u_seed_default_sorted)
  next
    case (Some sd')
    with sd show ?thesis by (simp add: greedy_start_simps u_seed_def)
  qed
  then have inv0: "indices ?st0 = sort (args ?st0)"
    by (simp add: greedy_start_simps sorted_sort_id)
  have fl0: "flag ?st0 = 0" and tr0: "\<forall>e\<in>set (errors ?st0). t \<le> e"
    by (simp_all add: greedy_start_simps)
  from greedy_loop_total [OF len ne rng0 inv0 fl0 tr0, of fit deg]
  have A: "u_greedy fit x y tol rel deg seeds = Inl FitError
     \<or> (\<exists>s idx a e. u_greedy fit x y tol rel deg seeds = Inr (s, idx, a, e, t)
          \<and> (\<forall>v\<in>set e. t \<le> v)
          \<and> ((\<exists>errs. abs_errs s x y = Inr errs \<and> (\<forall>v\<in>set errs. v < t))
             \<or> int (length idx)
                = max (int (length (fst (u_seed x deg seeds)))) (int (length x) - 1)))"
    (is "?F \<or> ?R")
  proof
    assume "greedy_loop fit x y deg t ?st0 = Inl FitError"
    then have "u_greedy fit x y tol rel deg seeds = Inl FitError"
      by (simp add: u_greedy_def tl bind_err_simps)
    then show ?thesis ..
  next
    assume "\<exists>st'. greedy_loop fit x y deg t ?st0 = Inr st'
          \<and> (\<forall>i\<in>set (indices st'). - int (length x) \<le> i \<and> i < int (length x))
          \<and> (\<forall>e\<in>set (errors st'). t \<le> e)
          \<and> ((flag st' = 1
               \<and> (\<exists>s errs. fit_knots fit x y deg (indices st') = Inr s
                     \<and> abs_errs s x y = Inr errs \<and> (\<forall>e\<in>set errs. e < t)))
             \<or> (flag st' = 0 \<and> int (length x) \<le> ctr st'
               \<and> int (length (indices st'))
                  = int (length (indices ?st0)) + max 0 (int (length x) - ctr ?st0)))"
    then obtain st' where l: "greedy_loop fit x y deg t ?st0 = Inr st'"
      and rng: "\<forall>i\<in>set (indices st'). - int (length x) \<le> i \<and> i < int (length x)"
      and tr: "\<forall>e\<in>set (errors st'). t \<le> e"
      and d: "(flag st' = 1
               \<and> (\<exists>s errs. fit_knots fit x y deg (indices st') = Inr s
                     \<and> abs_errs s x y = Inr errs \<and> (\<forall>e\<in>set errs. e < t)))
             \<or> (flag st' = 0 \<and> int (length x) \<le> ctr st'
               \<and> int (length (indices st'))
                  = int (length (indices ?st0)) + max 0 (int (length x) - ctr ?st0))"
      by blast
    from fit_knots_cases [OF len rng, of fit deg] show ?thesis
    proof
      assume "fit_knots fit x y deg (indices st') = Inl FitError"
      then have "u_greedy fit x y tol rel deg seeds = Inl FitError"
        by (simp add: u_greedy_def tl l bind_err_simps)
      then show ?thesis ..
    next
      assume "\<exists>s. fit_knots fit x y deg (indices st') = Inr s"
      then obtain s where s: "fit_knots fit x y deg (indices st') = Inr s" ..
      have u: "u_greedy fit x y tol rel deg seeds = Inr (s, indices st', args st', errors st', t)"
        by (rule u_greedy_eq [OF tl l s])
      have "int (length (indices ?st0)) + max 0 (int (length x) - ctr ?st0)
          = max (int (length (fst (u_seed x deg seeds)))) (int (length x) - 1)"
        by (simp add: greedy_start_simps)
      with d s have "(\<exists>errs. abs_errs s x y = Inr errs \<and> (\<forall>v\<in>set errs. v < t))
             \<or> int (length (indices st'))
                = max (int (length (fst (u_seed x deg seeds)))) (int (length x) - 1)"
        by auto
      with u tr show ?thesis by blast
    qed
  qed
  have B: "interpolates fit \<and> accepts_increasing fit deg \<and> sorted_wrt (<) x \<and> 0 < t
        \<and> distinct (fst (u_seed x deg seeds)) \<and> (\<forall>i\<in>set (fst (u_seed x deg seeds)). 0 \<le> i)
        \<and> deg < int (length (fst (u_seed x deg seeds)))
      \<longrightarrow> u_greedy fit x y tol rel deg seeds \<noteq> Inl FitError"
  proof
    assume h: "interpolates fit \<and> accepts_increasing fit deg \<and> sorted_wrt (<) x \<and> 0 < t
        \<and> distinct (fst (u_seed x deg seeds)) \<and> (\<forall>i\<in>set (fst (u_seed x deg seeds)). 0 \<le> i)
        \<and> deg < int (length (fst (u_seed x deg seeds)))"
    have ms0: "mset (indices ?st0) = mset (args ?st0)" by (simp add: greedy_start_simps)
    have s0: "sorted (indices ?st0)" using inv0 by (metis sorted_sort)
    have d0: "distinct (indices ?st0)" using h by (simp add: greedy_start_simps)
    have r0: "\<forall>i\<in>set (indices ?st0). 0 \<le> i \<and> i < int (length x)"
      using h rng0 by (simp add: greedy_start_simps)
    have l0: "deg < int (length (indices ?st0))" using h by (simp add: greedy_start_simps)
    from greedy_returns [of fit deg x y t ?st0] h len ne ms0 s0 d0 r0 l0
    obtain st' s where "greedy_loop fit x y deg t ?st0 = Inr st'"
      "fit_knots fit x y deg (indices st') = Inr s"
      by blast
    from u_greedy_eq [OF tl this] show "u_greedy fit x y tol rel deg seeds \<noteq> Inl FitError"
      by simp
  qed
  from A B show ?thesis ..
qed

text \<open>The run on five points with tolerance 1 never gets below the tolerance and stops
  with four of the five points.\<close>

theorem greedy_terminates_witness:
  "length [0, 1, 2, 3, 4::real] = length [0, 3, 0, 3, 0::real]
   \<and> effective_tol [0, 3, 0, 3, 0] 1 False = Inr 1
   \<and> interpolates linear_fit \<and> accepts_increasing linear_fit 1
   \<and> sorted_wrt (<) [0, 1, 2, 3, 4::real]
   \<and> fst (u_seed [0, 1, 2, 3, 4::real] 1 None) = [0, 4]
   \<and> u_greedy linear_fit [0, 1, 2, 3, 4] [0, 3, 0, 3, 0] 1 False 1 None \<noteq> Inl FitError
   \<and> u_greedy linear_fit [0, 1, 2, 3, 4] [0, 3, 0, 3, 0] 1 False 1 None
       = Inr (pw_linear [(0, 0), (1, 3), (2, 0), (4, 0)], [0, 1, 2, 4], [0, 4, 1, 2], [3, 2], 1)
   \<and> (\<exists>s idx a e. u_greedy linear_fit [0, 1, 2, 3, 4] [0, 3, 0, 3, 0] 1 False 1 None
              = Inr (s, idx, a, e, 1)
          \<and> (\<forall>v\<in>set e. 1 \<le> v)
          \<and> ((\<exists>errs. abs_errs s [0, 1, 2, 3, 4] [0, 3, 0, 3, 0] = Inr errs \<and> (\<forall>v\<in>set errs. v < 1))
             \<or> int (length idx)
                = max (int (length (fst (u_seed [0, 1, 2, 3, 4::real] 1 None))))
                      (int (length [0, 1, 2, 3, 4::real]) - 1)))"
proof -
  have len: "length [0, 1, 2, 3, 4::real] = length [0, 3, 0, 3, 0::real]" by simp
  have ne: "[0, 1, 2, 3, 4::real] \<noteq> []" by simp
  have tl: "effective_tol [0, 3, 0, 3, 0] 1 False = Inr 1" by (rule effective_tol_abs)
  have sd: "case None :: int list option of None \<Rightarrow> True
     | Some sd \<Rightarrow> sorted sd \<and> (\<forall>i\<in>set sd. - int (length [0, 1, 2, 3, 4::real]) \<le> i
           \<and> i < int (length [0, 1, 2, 3, 4::real]))"
    by simp
  have inc: "sorted_wrt (<) [0, 1, 2, 3, 4::real]" by simp
  have seed: "fst (u_seed [0, 1, 2, 3, 4::real] 1 None) = [0, 4]"
    by (simp add: u_seed_def seed_f_def)
  have u: "u_greedy linear_fit [0, 1, 2, 3, 4] [0, 3, 0, 3, 0] 1 False 1 None
       = Inr (pw_linear [(0, 0), (1, 3), (2, 0), (4, 0)], [0, 1, 2, 4], [0, 4, 1, 2], [3, 2], 1)"
    using u_greedy_eq [OF tl zz_loop_exhaust] zz_fit3 by simp
  note t = greedy_terminates [OF len ne tl sd, of linear_fit 1]
  from t linear_fit_interpolates linear_fit_accepts [of 1] inc seed
  have nf: "u_greedy linear_fit [0, 1, 2, 3, 4] [0, 3, 0, 3, 0] 1 False 1 None \<noteq> Inl FitError"
    by simp
  with t have "\<exists>s idx a e. u_greedy linear_fit [0, 1, 2, 3, 4] [0, 3, 0, 3, 0] 1 False 1 None
              = Inr (s, idx, a, e, 1)
          \<and> (\<forall>v\<in>set e. 1 \<le> v)
          \<and> ((\<exists>errs. abs_errs s [0, 1, 2, 3, 4] [0, 3, 0, 3, 0] = Inr errs \<and> (\<forall>v\<in>set errs. v < 1))
             \<or> int (length idx)
                = max (int (length (fst (u_seed [0, 1, 2, 3, 4::real] 1 None))))
                      (int (length [0, 1, 2, 3, 4::real]) - 1))"
    by blast
  with len tl linear_fit_interpolates linear_fit_accepts [of 1] inc seed nf u
  show ?thesis by (intro conjI)
qed

text \<open>The claim as the specification states it has every valid input return without an
  error. On ordinates on a straight line with tolerance 0, and on eight points with
  degree 5 and tolerance \<open>10\<^sup>-\<^sup>6\<close>, the fitter is handed a repeated knot and the
  reduction ends with its error.\<close>

theorem greedy_raises_counterexample:
  "length [0, 1, 2, 3, 4::real] = length [0, 2, 4, 6, 8::real]
   \<and> effective_tol [0, 2, 4, 6, 8] 0 False = Inr 0
   \<and> u_greedy linear_fit [0, 1, 2, 3, 4] [0, 2, 4, 6, 8] 0 False 1 None = Inl FitError
   \<and> length [0, 1, 2, 3, 4, 5, 6, 7::real] = length [0, 1, 4, 9, 16, 25, 36, 49::real]
   \<and> effective_tol [0, 1, 4, 9, 16, 25, 36, 49] (1 / 1000000) False = Inr (1 / 1000000)
   \<and> u_greedy linear_fit [0, 1, 2, 3, 4, 5, 6, 7] [0, 1, 4, 9, 16, 25, 36, 49] (1 / 1000000) False 5 None
       = Inl FitError"
  using line_greedy oct_greedy by (simp add: effective_tol_abs)

subsection \<open>C5: the tolerance\<close>

text \<open>
  C5. In absolute mode the effective tolerance is the tolerance given. In relative mode it
  is the tolerance times the largest absolute value of \<open>y\<close>; when that maximum is zero,
  \<^verbatim>\<open>_greedy\<close> and \<^verbatim>\<open>greedy\<close> fail with the error for all-zero data (and on empty data
  NumPy's maximum raises). The effective tolerance \<open>t\<close> is computed before the loop:
  \<^verbatim>\<open>_greedy\<close> is the loop run with \<open>t\<close>, followed by the last fit, and \<open>t\<close> is the
  tolerance it returns and \<^verbatim>\<open>greedy\<close> stores. A pass of the loop in which the fit succeeds
  compares the largest absolute error with \<open>t\<close>: when it is strictly less, the loop stops
  there with the flag set and the knots it had; when it is not, equal included, the loop
  goes on with the point of that error added.
\<close>

theorem tolerance_semantics:
  "effective_tol y tol False = Inr tol
   \<and> effective_tol [] tol True = Inl ValueError
   \<and> (y \<noteq> [] \<longrightarrow> effective_tol y tol True =
         (if Max (set (map abs y)) = 0 then Inl AllSamplesZero
          else Inr (tol * Max (set (map abs y)))))
   \<and> (y \<noteq> [] \<and> Max (set (map abs y)) = 0 \<longrightarrow>
         u_greedy fit x y tol True deg seeds = Inl AllSamplesZero
       \<and> greedy fit self x y tol True deg seeds = Inl AllSamplesZero)
   \<and> (\<forall>e. effective_tol y tol rel = Inl e \<longrightarrow> u_greedy fit x y tol rel deg seeds = Inl e)
   \<and> (\<forall>t. effective_tol y tol rel = Inr t \<longrightarrow>
         u_greedy fit x y tol rel deg seeds =
           bind_err (greedy_loop fit x y deg t (greedy_start x deg seeds)) (\<lambda>st.
           bind_err (fit_knots fit x y deg (indices st)) (\<lambda>s.
           Inr (s, indices st, args st, errors st, t))))
   \<and> (\<forall>m. greedy fit self x y tol rel deg seeds = Inr m \<longrightarrow>
         (\<exists>t. effective_tol y tol rel = Inr t \<and> ros_tol m = Some t \<and> ros_tol_in m = Some tol))
   \<and> (\<forall>t st s. flag st = 0 \<and> ctr st < int (length x) \<and> length x = length y \<and> x \<noteq> []
           \<and> fit_knots fit x y deg (indices st) = Inr s \<longrightarrow>
         (\<exists>errs imax. errs = map2 (\<lambda>u v. \<bar>s u - v\<bar>) x y
            \<and> imax < length errs \<and> errs ! imax = Max (set errs)
            \<and> (\<forall>j<imax. errs ! j < errs ! imax)
            \<and> (Max (set errs) < t \<longrightarrow>
                  greedy_loop fit x y deg t st
                    = Inr \<lparr>flag = 1, ctr = ctr st + 1, indices = sort (args st),
                           args = args st, errors = errors st\<rparr>)
            \<and> (\<not> Max (set errs) < t \<longrightarrow>
                  greedy_loop fit x y deg t st
                    = greedy_loop fit x y deg t
                        \<lparr>flag = 0, ctr = ctr st + 1, indices = sort (indices st @ [int imax]),
                         args = args st @ [int imax],
                         errors = errors st @ [Max (set errs)]\<rparr>)))"
proof -
  have 1: "effective_tol y tol False = Inr tol" by (rule effective_tol_abs)
  have 2: "effective_tol [] tol True = Inl ValueError"
    by (simp add: effective_tol_def np_max_empty bind_err_simps)
  have 3: "y \<noteq> [] \<longrightarrow> effective_tol y tol True =
         (if Max (set (map abs y)) = 0 then Inl AllSamplesZero
          else Inr (tol * Max (set (map abs y))))"
    using effective_tol_rel by blast
  have 4: "y \<noteq> [] \<and> Max (set (map abs y)) = 0 \<longrightarrow>
         u_greedy fit x y tol True deg seeds = Inl AllSamplesZero
       \<and> greedy fit self x y tol True deg seeds = Inl AllSamplesZero"
  proof
    assume a: "y \<noteq> [] \<and> Max (set (map abs y)) = 0"
    then have "effective_tol y tol True = Inl AllSamplesZero" by (simp add: effective_tol_rel)
    from effective_tol_fail [OF this] greedy_rel_fail [OF this]
    show "u_greedy fit x y tol True deg seeds = Inl AllSamplesZero
       \<and> greedy fit self x y tol True deg seeds = Inl AllSamplesZero" by simp
  qed
  have 5: "\<forall>e. effective_tol y tol rel = Inl e \<longrightarrow> u_greedy fit x y tol rel deg seeds = Inl e"
    using effective_tol_fail by blast
  have 6: "\<forall>t. effective_tol y tol rel = Inr t \<longrightarrow>
         u_greedy fit x y tol rel deg seeds =
           bind_err (greedy_loop fit x y deg t (greedy_start x deg seeds)) (\<lambda>st.
           bind_err (fit_knots fit x y deg (indices st)) (\<lambda>s.
           Inr (s, indices st, args st, errors st, t)))"
    by (intro allI impI) (rule u_greedy_tol)
  have 7: "\<forall>m. greedy fit self x y tol rel deg seeds = Inr m \<longrightarrow>
         (\<exists>t. effective_tol y tol rel = Inr t \<and> ros_tol m = Some t \<and> ros_tol_in m = Some tol)"
  proof (intro allI impI)
    fix m assume "greedy fit self x y tol rel deg seeds = Inr m"
    from greedy_InrD [OF this] obtain s idx a e t where
      u: "u_greedy fit x y tol rel deg seeds = Inr (s, idx, a, e, t)"
      and m: "ros_tol m = Some t" "ros_tol_in m = Some tol"
      by auto
    from u_greedy_InrD [OF u] have "effective_tol y tol rel = Inr t" by auto
    with m show "\<exists>t. effective_tol y tol rel = Inr t \<and> ros_tol m = Some t \<and> ros_tol_in m = Some tol"
      by blast
  qed
  have 8: "\<forall>t st s. flag st = 0 \<and> ctr st < int (length x) \<and> length x = length y \<and> x \<noteq> []
           \<and> fit_knots fit x y deg (indices st) = Inr s \<longrightarrow>
         (\<exists>errs imax. errs = map2 (\<lambda>u v. \<bar>s u - v\<bar>) x y
            \<and> imax < length errs \<and> errs ! imax = Max (set errs)
            \<and> (\<forall>j<imax. errs ! j < errs ! imax)
            \<and> (Max (set errs) < t \<longrightarrow>
                  greedy_loop fit x y deg t st
                    = Inr \<lparr>flag = 1, ctr = ctr st + 1, indices = sort (args st),
                           args = args st, errors = errors st\<rparr>)
            \<and> (\<not> Max (set errs) < t \<longrightarrow>
                  greedy_loop fit x y deg t st
                    = greedy_loop fit x y deg t
                        \<lparr>flag = 0, ctr = ctr st + 1, indices = sort (indices st @ [int imax]),
                         args = args st @ [int imax],
                         errors = errors st @ [Max (set errs)]\<rparr>))"
  proof (intro allI impI)
    fix t and st :: greedy_state and s
    assume "flag st = 0 \<and> ctr st < int (length x) \<and> length x = length y \<and> x \<noteq> []
           \<and> fit_knots fit x y deg (indices st) = Inr s"
    then have h: "flag st = 0" "ctr st < int (length x)" "length x = length y" "x \<noteq> []"
      "fit_knots fit x y deg (indices st) = Inr s"
      by simp_all
    show "\<exists>errs imax. errs = map2 (\<lambda>u v. \<bar>s u - v\<bar>) x y
            \<and> imax < length errs \<and> errs ! imax = Max (set errs)
            \<and> (\<forall>j<imax. errs ! j < errs ! imax)
            \<and> (Max (set errs) < t \<longrightarrow>
                  greedy_loop fit x y deg t st
                    = Inr \<lparr>flag = 1, ctr = ctr st + 1, indices = sort (args st),
                           args = args st, errors = errors st\<rparr>)
            \<and> (\<not> Max (set errs) < t \<longrightarrow>
                  greedy_loop fit x y deg t st
                    = greedy_loop fit x y deg t
                        \<lparr>flag = 0, ctr = ctr st + 1, indices = sort (indices st @ [int imax]),
                         args = args st @ [int imax],
                         errors = errors st @ [Max (set errs)]\<rparr>)"
      by (rule greedy_loop_pass [OF h])
  qed
  from 1 2 3 4 5 6 7 8 show ?thesis by (intro conjI)
qed

text \<open>The run on five points in relative mode, where the largest ordinate is 3. With the
  tolerance 2/3 the effective tolerance is 2, the second pass finds the largest error 2,
  which is not below it, and the loop runs on to the end. With 5/6 the effective tolerance
  is 5/2 and the second pass converges. All-zero ordinates fail.\<close>

theorem tolerance_semantics_witness:
  "effective_tol [0, 3, 0, 3, 0] (2 / 3) True = Inr 2
   \<and> effective_tol [0, 3, 0, 3, 0] (5 / 6) True = Inr (5 / 2)
   \<and> map2 (\<lambda>u v. \<bar>pw_linear [(0, 0), (1, 3), (4, 0)] u - v\<bar>) [0, 1, 2, 3, 4] [0, 3, 0, 3, 0]
       = [0, 0, 2, 2, 0]
   \<and> greedy_loop linear_fit [0, 1, 2, 3, 4] [0, 3, 0, 3, 0] 1 2
        \<lparr>flag = 0, ctr = 4, indices = [0, 1, 4], args = [0, 4, 1], errors = [3]\<rparr>
       = Inr \<lparr>flag = 0, ctr = 5, indices = [0, 1, 2, 4], args = [0, 4, 1, 2], errors = [3, 2]\<rparr>
   \<and> greedy_loop linear_fit [0, 1, 2, 3, 4] [0, 3, 0, 3, 0] 1 (5 / 2)
        \<lparr>flag = 0, ctr = 4, indices = [0, 1, 4], args = [0, 4, 1], errors = [3]\<rparr>
       = Inr \<lparr>flag = 1, ctr = 5, indices = [0, 1, 4], args = [0, 4, 1], errors = [3]\<rparr>
   \<and> u_greedy linear_fit [0, 1, 2, 3, 4] [0, 3, 0, 3, 0] (2 / 3) True 1 None
       = Inr (pw_linear [(0, 0), (1, 3), (2, 0), (4, 0)], [0, 1, 2, 4], [0, 4, 1, 2], [3, 2], 2)
   \<and> u_greedy linear_fit [0, 1, 2, 3, 4] [0, 3, 0, 3, 0] (5 / 6) True 1 None
       = Inr (pw_linear [(0, 0), (1, 3), (4, 0)], [0, 1, 4], [0, 4, 1], [3], 5 / 2)
   \<and> u_greedy linear_fit [0, 1, 2] [0, 0, 0] (1 / 2) True 1 None = Inl AllSamplesZero
   \<and> greedy linear_fit (blank 1 True) [0, 1, 2] [0, 0, 0] (1 / 2) True 1 None = Inl AllSamplesZero"
proof -
  let ?x = "[0, 1, 2, 3, 4::real]" and ?y = "[0, 3, 0, 3, 0::real]"
  let ?st = "\<lparr>flag = 0, ctr = 4, indices = [0, 1, 4], args = [0, 4, 1], errors = [3::real]\<rparr>"
  let ?st2 = "\<lparr>flag = 0, ctr = 5, indices = [0, 1, 2, 4], args = [0, 4, 1, 2], errors = [3, 2::real]\<rparr>"
  let ?st3 = "\<lparr>flag = 1, ctr = 5, indices = [0, 1, 4], args = [0, 4, 1], errors = [3::real]\<rparr>"
  have ne: "?y \<noteq> []" and mx: "Max (set (map abs ?y)) = 3" by simp_all
  from tolerance_semantics [of ?y "2 / 3"] ne mx
  have t2: "effective_tol ?y (2 / 3) True = Inr 2" by simp
  from tolerance_semantics [of ?y "5 / 6"] ne mx
  have t52: "effective_tol ?y (5 / 6) True = Inr (5 / 2)" by simp
  have v: "map2 (\<lambda>u v. \<bar>pw_linear [(0, 0), (1, 3), (4, 0)] u - v\<bar>) ?x ?y = [0, 0, 2, 2, 0]"
    by simp
  have hyp: "flag ?st = 0 \<and> ctr ?st < int (length ?x) \<and> length ?x = length ?y \<and> ?x \<noteq> []
       \<and> fit_knots linear_fit ?x ?y 1 (indices ?st) = Inr (pw_linear [(0, 0), (1, 3), (4, 0)])"
    using zz_fit2 by simp
  note pass = tolerance_semantics [where y = ?y and tol = "2 / 3" and fit = linear_fit and x = ?x and deg = 1, THEN conjunct2, THEN conjunct2,
      THEN conjunct2, THEN conjunct2, THEN conjunct2, THEN conjunct2, THEN conjunct2,
      rule_format, OF hyp]
  from pass [of 2] obtain errs imax where
    e: "errs = map2 (\<lambda>u v. \<bar>pw_linear [(0, 0), (1, 3), (4, 0)] u - v\<bar>) ?x ?y"
    and i0: "imax < length errs" "errs ! imax = Max (set errs)" "\<forall>j<imax. errs ! j < errs ! imax"
    and n0: "\<not> Max (set errs) < 2 \<longrightarrow>
                  greedy_loop linear_fit ?x ?y 1 2 ?st
                    = greedy_loop linear_fit ?x ?y 1 2
                        \<lparr>flag = 0, ctr = ctr ?st + 1, indices = sort (indices ?st @ [int imax]),
                         args = args ?st @ [int imax],
                         errors = errors ?st @ [Max (set errs)]\<rparr>"
    by blast
  from e v have ev: "errs = [0, 0, 2, 2, 0]" by simp
  note i = i0 [unfolded ev] and n = n0 [unfolded ev]
  from i(1) have "imax = 0 \<or> imax = 1 \<or> imax = 2 \<or> imax = 3 \<or> imax = 4" by auto
  then have "imax = 2"
  proof (elim disjE)
    assume "imax = 3"
    with i(3) have "(2::nat) < 3 \<longrightarrow> [0, 0, 2, 2, 0::real] ! 2 < [0, 0, 2, 2, 0] ! 3" by blast
    then show ?thesis by simp
  qed (use i(2) in simp_all)
  with n have "greedy_loop linear_fit ?x ?y 1 2 ?st = greedy_loop linear_fit ?x ?y 1 2 ?st2"
    by simp
  also have "\<dots> = Inr ?st2" by (rule greedy_loop_stop) simp
  finally have l2: "greedy_loop linear_fit ?x ?y 1 2 ?st = Inr ?st2" .
  from pass [of "5 / 2"] obtain errs' where
    e': "errs' = map2 (\<lambda>u v. \<bar>pw_linear [(0, 0), (1, 3), (4, 0)] u - v\<bar>) ?x ?y"
    and c': "Max (set errs') < 5 / 2 \<longrightarrow>
                  greedy_loop linear_fit ?x ?y 1 (5 / 2) ?st
                    = Inr \<lparr>flag = 1, ctr = ctr ?st + 1, indices = sort (args ?st),
                           args = args ?st, errors = errors ?st\<rparr>"
    by blast
  from e' v have "errs' = [0, 0, 2, 2, 0]" by simp
  with c' have l52: "greedy_loop linear_fit ?x ?y 1 (5 / 2) ?st = Inr ?st3" by simp
  have s2: "greedy_loop linear_fit ?x ?y 1 2 (greedy_start ?x 1 None) = Inr ?st2"
    using greedy_reach_loop [OF zz_reach1, of 2] l2 by simp
  have s52: "greedy_loop linear_fit ?x ?y 1 (5 / 2) (greedy_start ?x 1 None) = Inr ?st3"
    using greedy_reach_loop [OF zz_reach1, of "5 / 2"] l52 by simp
  from tolerance_semantics [where y = ?y and tol = "2 / 3" and rel = True and fit = linear_fit
      and x = ?x and deg = 1 and seeds = None, THEN conjunct2, THEN conjunct2,
      THEN conjunct2, THEN conjunct2, THEN conjunct2, THEN conjunct1, rule_format, OF t2]
  have "u_greedy linear_fit ?x ?y (2 / 3) True 1 None =
           bind_err (greedy_loop linear_fit ?x ?y 1 2 (greedy_start ?x 1 None)) (\<lambda>st.
           bind_err (fit_knots linear_fit ?x ?y 1 (indices st)) (\<lambda>s.
           Inr (s, indices st, args st, errors st, 2)))" .
  then have u2: "u_greedy linear_fit ?x ?y (2 / 3) True 1 None
       = Inr (pw_linear [(0, 0), (1, 3), (2, 0), (4, 0)], [0, 1, 2, 4], [0, 4, 1, 2], [3, 2], 2)"
    by (simp add: s2 zz_fit3 bind_err_simps)
  from tolerance_semantics [where y = ?y and tol = "5 / 6" and rel = True and fit = linear_fit
      and x = ?x and deg = 1 and seeds = None, THEN conjunct2, THEN conjunct2,
      THEN conjunct2, THEN conjunct2, THEN conjunct2, THEN conjunct1, rule_format, OF t52]
  have "u_greedy linear_fit ?x ?y (5 / 6) True 1 None =
           bind_err (greedy_loop linear_fit ?x ?y 1 (5 / 2) (greedy_start ?x 1 None)) (\<lambda>st.
           bind_err (fit_knots linear_fit ?x ?y 1 (indices st)) (\<lambda>s.
           Inr (s, indices st, args st, errors st, 5 / 2)))" .
  then have u52: "u_greedy linear_fit ?x ?y (5 / 6) True 1 None
       = Inr (pw_linear [(0, 0), (1, 3), (4, 0)], [0, 1, 4], [0, 4, 1], [3], 5 / 2)"
    by (simp add: s52 zz_fit2 bind_err_simps)
  have z: "[0, 0, 0::real] \<noteq> [] \<and> Max (set (map abs [0, 0, 0::real])) = 0" by simp
  note b = tolerance_semantics [where y = "[0, 0, 0]" and tol = "1 / 2" and fit = linear_fit
      and x = "[0, 1, 2]" and deg = 1 and seeds = None and self = "blank 1 True",
      THEN conjunct2, THEN conjunct2, THEN conjunct2, THEN conjunct1, rule_format, OF z]
  from t2 t52 v l2 l52 u2 u52 b show ?thesis by (intro conjI) simp_all
qed

subsection \<open>C6: the knot set\<close>

text \<open>
  C6, as the code has it. In every state that the loop passes through, \<open>indices\<close> and
  \<open>args\<close> have the same length and the same multiset of entries. \<open>indices\<close> is sorted
  ascending, and is \<open>sort args\<close>, in every state when the seed is sorted, as the default
  seed is, and after the first pass in any case. The entries of \<open>indices\<close> are unique in
  every state when the seed indices are unique (the default seed of a degree \<open>d \<ge> 2\<close> on
  \<open>n\<close> points: exactly when \<open>n > 2 * (d - 1)\<close>), the tolerance is positive, \<open>x\<close> and \<open>y\<close>
  have the same length and the fitter interpolates. Without these conditions a pass
  leaves \<open>indices\<close> without repetition exactly when it found them so and, unless the pass
  converged, the index it selected was not a knot already.
\<close>

theorem knot_set_invariant:
  assumes "greedy_reach fit x y deg tol (greedy_start x deg seeds) st"
  shows "length (indices st) = length (args st)
       \<and> mset (indices st) = mset (args st)
       \<and> (sorted (fst (u_seed x deg seeds)) \<or> st \<noteq> greedy_start x deg seeds
            \<longrightarrow> sorted (indices st) \<and> indices st = sort (args st))
       \<and> sorted (fst (u_seed x deg None))
       \<and> (interpolates fit \<and> 0 < tol \<and> length x = length y
              \<and> distinct (fst (u_seed x deg seeds))
            \<longrightarrow> distinct (indices st))
       \<and> (2 \<le> deg \<longrightarrow>
             (distinct (fst (u_seed x deg None)) \<longleftrightarrow> 2 * (deg - 1) < int (length x)))
       \<and> (\<forall>st'. flag st = 0 \<and> ctr st < int (length x) \<and> greedy_body fit x y deg tol st = Inr st'
            \<longrightarrow> (distinct (indices st') \<longleftrightarrow>
                  distinct (indices st) \<and> (flag st' = 0 \<longrightarrow> last (args st') \<notin> set (indices st))))"
proof -
  let ?st0 = "greedy_start x deg seeds"
  have s0: "mset (indices ?st0) = mset (args ?st0)" by (simp add: greedy_start_simps)
  from greedy_reach_knots [OF assms s0]
  have k: "st = ?st0 \<or> indices st = sort (args st)" .
  have ms: "mset (indices st) = mset (args st)" by (rule greedy_reach_mset [OF assms s0])
  then have len: "length (indices st) = length (args st)" by (rule mset_eq_length)
  have srt: "sorted (fst (u_seed x deg seeds)) \<or> st \<noteq> ?st0
      \<longrightarrow> sorted (indices st) \<and> indices st = sort (args st)"
  proof
    assume a: "sorted (fst (u_seed x deg seeds)) \<or> st \<noteq> ?st0"
    show "sorted (indices st) \<and> indices st = sort (args st)"
    proof (cases "st = ?st0")
      case True
      with a have "sorted (indices ?st0)" by (simp add: greedy_start_simps)
      from greedy_reach_sorted [OF assms s0 this] show ?thesis .
    next
      case False
      with k have e: "indices st = sort (args st)" by simp
      have "sorted (sort (args st))" by (rule sorted_sort)
      with e show ?thesis by simp
    qed
  qed
  have d: "interpolates fit \<and> 0 < tol \<and> length x = length y
              \<and> distinct (fst (u_seed x deg seeds))
            \<longrightarrow> distinct (indices st)"
  proof
    assume h: "interpolates fit \<and> 0 < tol \<and> length x = length y
              \<and> distinct (fst (u_seed x deg seeds))"
    then have d0: "distinct (indices ?st0)" by (simp add: greedy_start_simps)
    from h have h': "interpolates fit" "0 < tol" "length x = length y" by simp_all
    show "distinct (indices st)" by (rule greedy_reach_distinct [OF assms h' s0 d0])
  qed
  have dd: "2 \<le> deg \<longrightarrow>
             (distinct (fst (u_seed x deg None)) \<longleftrightarrow> 2 * (deg - 1) < int (length x))"
    using u_seed_default_distinct by blast
  have st: "\<forall>st'. flag st = 0 \<and> ctr st < int (length x) \<and> greedy_body fit x y deg tol st = Inr st'
            \<longrightarrow> (distinct (indices st') \<longleftrightarrow>
                  distinct (indices st) \<and> (flag st' = 0 \<longrightarrow> last (args st') \<notin> set (indices st)))"
    using greedy_body_distinct [OF _ ms] by blast
  from len ms srt u_seed_default_sorted [of x deg] d dd st show ?thesis by (intro conjI)
qed

text \<open>The state after the first pass of the run on five points, with tolerance 5/2.\<close>

theorem knot_set_invariant_witness:
  "greedy_reach linear_fit [0, 1, 2, 3, 4] [0, 3, 0, 3, 0] 1 (5 / 2)
     (greedy_start [0, 1, 2, 3, 4::real] 1 None)
     \<lparr>flag = 0, ctr = 4, indices = [0, 1, 4], args = [0, 4, 1], errors = [3]\<rparr>
   \<and> interpolates linear_fit \<and> (0::real) < 5 / 2
   \<and> fst (u_seed [0, 1, 2, 3, 4::real] 1 None) = [0, 4]
   \<and> length [0, 1, 4::int] = length [0, 4, 1::int]
   \<and> mset [0, 1, 4::int] = mset [0, 4, 1]
   \<and> sorted [0, 1, 4::int] \<and> [0, 1, 4] = sort [0, 4, 1::int]
   \<and> distinct [0, 1, 4::int]"
proof -
  let ?st = "\<lparr>flag = 0, ctr = 4, indices = [0, 1, 4], args = [0, 4, 1], errors = [3::real]\<rparr>"
  have r: "greedy_reach linear_fit [0, 1, 2, 3, 4] [0, 3, 0, 3, 0] 1 (5 / 2)
     (greedy_start [0, 1, 2, 3, 4::real] 1 None) ?st"
    by (rule zz_reach1) simp
  have seed: "fst (u_seed [0, 1, 2, 3, 4::real] 1 None) = [0, 4]"
    by (simp add: u_seed_def seed_f_def)
  note t = knot_set_invariant [OF r]
  from t have a: "length (indices ?st) = length (args ?st)" "mset (indices ?st) = mset (args ?st)"
    by blast+
  from t seed have b: "sorted (indices ?st) \<and> indices ?st = sort (args ?st)" by simp
  from t linear_fit_interpolates seed have c: "distinct (indices ?st)" by simp
  from r linear_fit_interpolates seed a b c show ?thesis by simp
qed

text \<open>The claim as the specification states it has the entries of \<open>indices\<close> unique and
  sorted at every step. On constant data with tolerance 0 every error is 0, so the first
  pass selects index 0, which is a knot already. The default seed of degree 5 on eight
  points repeats the last index before the first pass starts. And the seed 4, 0, given
  explicitly, is the unsorted \<open>indices\<close> of the first pass.\<close>

theorem knot_unique_counterexample:
  "greedy_reach linear_fit [0, 1, 2, 3, 4] [5, 5, 5, 5, 5] 2 0
     (greedy_start [0, 1, 2, 3, 4::real] 2 None)
     \<lparr>flag = 0, ctr = 5, indices = [0, 0, 2, 4], args = [0, 2, 4, 0], errors = [0]\<rparr>
   \<and> \<not> distinct (indices \<lparr>flag = 0, ctr = 5, indices = [0, 0, 2, 4], args = [0, 2, 4, 0], errors = [0::real]\<rparr>)
   \<and> indices (greedy_start [0, 1, 2, 3, 4, 5, 6, 7::real] 5 None) = [0, 1, 3, 5, 7, 7]
   \<and> \<not> distinct (indices (greedy_start [0, 1, 2, 3, 4, 5, 6, 7::real] 5 None))
   \<and> indices (greedy_start [0, 1, 2, 3, 4::real] 1 (Some [4, 0])) = [4, 0]
   \<and> \<not> sorted (indices (greedy_start [0, 1, 2, 3, 4::real] 1 (Some [4, 0])))"
proof -
  have "greedy_reach linear_fit [0, 1, 2, 3, 4] [5, 5, 5, 5, 5] 2 0
     (greedy_start [0, 1, 2, 3, 4::real] 2 None)
     \<lparr>flag = 0, ctr = 5, indices = [0, 0, 2, 4], args = [0, 2, 4, 0], errors = [0]\<rparr>"
    unfolding flat_start by (rule reach_pass [OF reach_start _ _ flat_pass]) simp_all
  moreover have "indices (greedy_start [0, 1, 2, 3, 4::real] 1 (Some [4, 0])) = [4, 0]"
    by (simp add: greedy_start_simps u_seed_def)
  ultimately show ?thesis by (simp add: oct_start)
qed

subsection \<open>C7: verification\<close>

text \<open>
  C7. For a model that has been made, with interpolant \<open>s\<close> and stored tolerance \<open>t\<close>, and
  data \<open>x\<close>, \<open>y\<close> of equal length, \<^verbatim>\<open>verify\<close> reports whether every entry of the vector of
  absolute errors \<open>\<bar>s x\<^sub>i - y\<^sub>i\<bar>\<close>, the one the loop computes too, is at most \<open>t\<close>. The
  array it returns holds the signed differences \<open>y\<^sub>i - s x\<^sub>i\<close>.
\<close>

theorem verify_reports:
  assumes "ros_made m" "ros_spline m = Some s" "ros_tol m = Some t" "length x = length y"
  shows "abs_errs s x y = Inr (map2 (\<lambda>u v. \<bar>s u - v\<bar>) x y)
       \<and> verify m x y = Inr ((\<forall>e\<in>set (map2 (\<lambda>u v. \<bar>s u - v\<bar>) x y). e \<le> t),
                             map2 (\<lambda>u v. v - s u) x y)"
proof -
  have l: "length y = length (map s x)" using assms(4) by simp
  have "map abs (map2 (\<lambda>u v. u - v) y (map s x)) = map2 (\<lambda>u v. \<bar>s u - v\<bar>) x y"
    using assms(4)
  proof (induction x y rule: list_induct2')
    case (4 a as b bs)
    then show ?case by (simp add: abs_minus_commute)
  qed simp_all
  moreover have "map2 (\<lambda>u v. u - v) y (map s x) = map2 (\<lambda>u v. v - s u) x y"
    using assms(4)
  proof (induction x y rule: list_induct2')
    case (4 a as b bs)
    then show ?case by simp
  qed simp_all
  moreover have "verify m x y = Inr (list_all (\<lambda>e. e \<le> t) (map abs (map2 (\<lambda>u v. u - v) y (map s x))),
                             map2 (\<lambda>u v. u - v) y (map s x))"
    by (simp only: verify_def assms(1-3) if_True option.case np_binop_eq [OF l] bind_err_simps)
  ultimately have "verify m x y = Inr ((\<forall>e\<in>set (map2 (\<lambda>u v. \<bar>s u - v\<bar>) x y). e \<le> t),
                             map2 (\<lambda>u v. v - s u) x y)"
    by (simp only: list_all_iff)
  with abs_errs_eq [OF assms(4), of s] show ?thesis by simp
qed

text \<open>The model of the run on five points has the errors 0, 0, 2, 2, 0 on its own data:
  within its tolerance 5/2, and not within a tolerance of 1.\<close>

theorem verify_reports_witness:
  "\<exists>m. greedy linear_fit (blank 1 False) [0, 1, 2, 3, 4] [0, 3, 0, 3, 0] (5 / 2) False 1 None = Inr m
     \<and> ros_made m \<and> ros_tol m = Some (5 / 2)
     \<and> verify m [0, 1, 2, 3, 4] [0, 3, 0, 3, 0] = Inr (True, [0, 0, - 2, 2, 0])
     \<and> verify (m\<lparr>ros_tol := Some 1\<rparr>) [0, 1, 2, 3, 4] [0, 3, 0, 3, 0] = Inr (False, [0, 0, - 2, 2, 0])"
proof -
  from zz_greedy obtain m where
    m: "greedy linear_fit (blank 1 False) [0, 1, 2, 3, 4] [0, 3, 0, 3, 0] (5 / 2) False 1 None = Inr m"
    and f: "ros_made m" "ros_spline m = Some (pw_linear [(0, 0), (1, 3), (4, 0)])"
      "ros_tol m = Some (5 / 2)"
    by blast
  have len: "length [0, 1, 2, 3, 4::real] = length [0, 3, 0, 3, 0::real]" by simp
  from verify_reports [OF f len]
  have a: "verify m [0, 1, 2, 3, 4] [0, 3, 0, 3, 0] = Inr (True, [0, 0, - 2, 2, 0])" by simp
  have g: "ros_made (m\<lparr>ros_tol := Some 1\<rparr>)"
    "ros_spline (m\<lparr>ros_tol := Some 1\<rparr>) = Some (pw_linear [(0, 0), (1, 3), (4, 0)])"
    "ros_tol (m\<lparr>ros_tol := Some 1\<rparr>) = Some 1"
    using f by simp_all
  from verify_reports [OF g len]
  have b: "verify (m\<lparr>ros_tol := Some 1\<rparr>) [0, 1, 2, 3, 4] [0, 3, 0, 3, 0] = Inr (False, [0, 0, - 2, 2, 0])"
    by simp
  from m f a b show ?thesis by blast
qed

subsection \<open>C8: worst-point selection\<close>

text \<open>
  C8. Let the fitter return the spline \<open>s\<close> on the current knots, on data of equal
  positive length. Then the pass through the body of the loop completes, and it works
  with the vector \<open>errs\<close> of the absolute errors \<open>\<bar>s x\<^sub>i - y\<^sub>i\<bar>\<close> over the whole data
  and with the index \<open>imax\<close> of the maximum of \<open>errs\<close>; no entry to the left of \<open>imax\<close>
  is as large, so among equal maxima the first wins. The error at \<open>imax\<close> and the index
  \<open>imax\<close> are what the pass appends, unless that error is below the tolerance.
\<close>

theorem worst_point_selection:
  assumes tx: "np_take x (indices st) = Inr xs" and ty: "np_take y (indices st) = Inr ys"
    and f: "fit xs ys deg = Some s"
    and len: "length x = length y" and ne: "x \<noteq> []"
  shows "\<exists>errs imax. errs = map2 (\<lambda>u v. \<bar>s u - v\<bar>) x y
     \<and> imax < length errs \<and> errs ! imax = Max (set errs) \<and> (\<forall>j<imax. errs ! j < errs ! imax)
     \<and> greedy_body fit x y deg tol st =
         Inr (if errs ! imax < tol
              then \<lparr>flag = 1, ctr = ctr st + 1, indices = sort (args st), args = args st,
                    errors = errors st\<rparr>
              else \<lparr>flag = flag st, ctr = ctr st + 1, indices = sort (indices st @ [int imax]),
                    args = args st @ [int imax], errors = errors st @ [errs ! imax]\<rparr>)"
proof -
  define errs where "errs = map2 (\<lambda>u v. \<bar>s u - v\<bar>) x y"
  have k: "fit_knots fit x y deg (indices st) = Inr s"
    by (simp add: fit_knots_def tx ty f bind_err_simps)
  have e: "abs_errs s x y = Inr errs" unfolding errs_def by (rule abs_errs_eq [OF len])
  have "errs \<noteq> []" using ne len by (cases x; cases y) (simp_all add: errs_def)
  from np_argmax_total [OF this] obtain imax where im: "np_argmax errs = Inr imax" ..
  note p = np_argmax_props [OF im] np_argmax_Max [OF im]
  from greedy_body_eq [OF k e im, of tol] p errs_def show ?thesis by blast
qed

text \<open>The second pass of the run on five points: the spline through the knots 0, 1, 4 has
  the errors 0, 0, 2, 2, 0, which are not the ordinates, and of the two largest the one
  at index 2 is selected.\<close>

theorem worst_point_selection_witness:
  "np_take [0, 1, 2, 3, 4::real] [0, 1, 4] = Inr [0, 1, 4]
   \<and> np_take [0, 3, 0, 3, 0::real] [0, 1, 4] = Inr [0, 3, 0]
   \<and> linear_fit [0, 1, 4] [0, 3, 0] 1 = Some (pw_linear [(0, 0), (1, 3), (4, 0)])
   \<and> map2 (\<lambda>u v. \<bar>pw_linear [(0, 0), (1, 3), (4, 0)] u - v\<bar>) [0, 1, 2, 3, 4] [0, 3, 0, 3, 0]
       = [0, 0, 2, 2, 0]
   \<and> greedy_body linear_fit [0, 1, 2, 3, 4] [0, 3, 0, 3, 0] 1 1
        \<lparr>flag = 0, ctr = 4, indices = [0, 1, 4], args = [0, 4, 1], errors = [3]\<rparr>
       = Inr \<lparr>flag = 0, ctr = 5, indices = [0, 1, 2, 4], args = [0, 4, 1, 2], errors = [3, 2]\<rparr>"
proof -
  let ?st = "\<lparr>flag = 0, ctr = 4, indices = [0, 1, 4], args = [0, 4, 1], errors = [3::real]\<rparr>"
  have tx: "np_take [0, 1, 2, 3, 4::real] (indices ?st) = Inr [0, 1, 4]"
    by (simp add: np_take_def)
  have ty: "np_take [0, 3, 0, 3, 0::real] (indices ?st) = Inr [0, 3, 0]"
    by (simp add: np_take_def)
  have f: "linear_fit [0, 1, 4] [0, 3, 0] 1 = Some (pw_linear [(0, 0), (1, 3), (4, 0)])"
    by (simp add: linear_fit_def)
  have len: "length [0, 1, 2, 3, 4::real] = length [0, 3, 0, 3, 0::real]" by simp
  have ne: "[0, 1, 2, 3, 4::real] \<noteq> []" by simp
  have v: "map2 (\<lambda>u v. \<bar>pw_linear [(0, 0), (1, 3), (4, 0)] u - v\<bar>) [0, 1, 2, 3, 4] [0, 3, 0, 3, 0]
       = [0, 0, 2, 2, 0]"
    by simp
  from worst_point_selection [where fit = linear_fit and deg = 1 and tol = 1, OF tx ty f len ne]
  obtain imax where
    i: "imax < length [0, 0, 2, 2, 0::real]"
       "[0, 0, 2, 2, 0::real] ! imax = Max (set [0, 0, 2, 2, 0])"
       "\<forall>j<imax. [0, 0, 2, 2, 0::real] ! j < [0, 0, 2, 2, 0] ! imax"
    and b: "greedy_body linear_fit [0, 1, 2, 3, 4] [0, 3, 0, 3, 0] 1 1 ?st =
         Inr (if [0, 0, 2, 2, 0::real] ! imax < 1
              then \<lparr>flag = 1, ctr = ctr ?st + 1, indices = sort (args ?st), args = args ?st,
                    errors = errors ?st\<rparr>
              else \<lparr>flag = flag ?st, ctr = ctr ?st + 1, indices = sort (indices ?st @ [int imax]),
                    args = args ?st @ [int imax], errors = errors ?st @ [[0, 0, 2, 2, 0] ! imax]\<rparr>)"
    unfolding v by blast
  from i(1) have "imax = 0 \<or> imax = 1 \<or> imax = 2 \<or> imax = 3 \<or> imax = 4" by auto
  then have "imax = 2"
  proof (elim disjE)
    assume "imax = 3"
    with i(3) have "(2::nat) < 3 \<longrightarrow> [0, 0, 2, 2, 0::real] ! 2 < [0, 0, 2, 2, 0] ! 3" by blast
    then show ?thesis by simp
  qed (use i(2) in simp_all)
  with b have "greedy_body linear_fit [0, 1, 2, 3, 4] [0, 3, 0, 3, 0] 1 1 ?st
       = Inr \<lparr>flag = 0, ctr = 5, indices = [0, 1, 2, 4], args = [0, 4, 1, 2], errors = [3, 2]\<rparr>"
    by simp
  with tx ty f v show ?thesis by simp
qed

subsection \<open>C9: the smallest data set\<close>

text \<open>
  C9, as the code has it. When the data have \<open>deg + 1\<close> points and the seed is the default
  one, \<open>ctr\<close> starts at or above the length of the data: the loop returns the state it was
  started in, and no other state is ever reached. Whatever \<^verbatim>\<open>_greedy\<close> and \<^verbatim>\<open>greedy\<close>
  then return has the seed as \<open>indices\<close> and as \<open>args\<close>, and an empty trace. For the
  degrees 1 and 2 the seed has no repetition, and on strictly increasing \<open>x\<close>, with
  \<open>y\<close> as long as \<open>x\<close>, a fitter that accepts increasing abscissas and an effective tolerance
  that exists, they do return: the result is the seed, the empty trace and the size
  \<open>deg + 1\<close>. For every degree from 3 on the seed repeats an index, so the last fit is
  handed a repeated knot.
\<close>

theorem boundary_no_pass:
  assumes "int (length x) = deg + 1"
  shows "fst (u_seed x deg None) = indices (greedy_start x deg None)
       \<and> greedy_loop fit x y deg tol (greedy_start x deg None) = Inr (greedy_start x deg None)
       \<and> (\<forall>st. greedy_reach fit x y deg tol (greedy_start x deg None) st
              \<longrightarrow> st = greedy_start x deg None)
       \<and> (\<forall>s idx a e t. u_greedy fit x y tol0 rel deg None = Inr (s, idx, a, e, t)
              \<longrightarrow> idx = fst (u_seed x deg None) \<and> a = fst (u_seed x deg None) \<and> e = [])
       \<and> (\<forall>m. greedy fit self x y tol0 rel deg None = Inr m
              \<longrightarrow> ros_indices m = Some (fst (u_seed x deg None))
                \<and> ros_args m = Some (fst (u_seed x deg None)) \<and> ros_errors m = Some [])
       \<and> (3 \<le> deg \<longrightarrow> \<not> distinct (fst (u_seed x deg None)))
       \<and> (\<forall>t. (deg = 1 \<or> deg = 2) \<and> length x = length y \<and> sorted_wrt (<) x
              \<and> accepts_increasing fit deg \<and> effective_tol y tol0 rel = Inr t
            \<longrightarrow> (\<exists>s. u_greedy fit x y tol0 rel deg None
                       = Inr (s, fst (u_seed x deg None), fst (u_seed x deg None), [], t))
              \<and> (\<exists>m. greedy fit self x y tol0 rel deg None = Inr m
                    \<and> ros_indices m = Some (fst (u_seed x deg None))
                    \<and> ros_args m = Some (fst (u_seed x deg None))
                    \<and> ros_errors m = Some [] \<and> ros_size m = Some (deg + 1)))"
proof -
  let ?st0 = "greedy_start x deg None" and ?sd = "fst (u_seed x deg None)"
  have c: "\<And>t. \<not> (flag ?st0 = 0 \<and> ctr ?st0 < int (length x))"
    using assms by (simp add: greedy_start_simps u_seed_default_length)
  have l: "\<And>t. greedy_loop fit x y deg t ?st0 = Inr ?st0"
    by (rule greedy_loop_stop [OF c])
  have r: "\<forall>st. greedy_reach fit x y deg tol ?st0 st \<longrightarrow> st = ?st0"
    using greedy_reach_stuck [OF _ c] by blast
  have u: "\<forall>s idx a e t. u_greedy fit x y tol0 rel deg None = Inr (s, idx, a, e, t)
              \<longrightarrow> idx = ?sd \<and> a = ?sd \<and> e = []"
  proof (intro allI impI)
    fix s idx a e t assume "u_greedy fit x y tol0 rel deg None = Inr (s, idx, a, e, t)"
    from u_greedy_InrD [OF this] l
    show "idx = ?sd \<and> a = ?sd \<and> e = []"
      by (auto simp: greedy_start_simps)
  qed
  have g: "\<forall>m. greedy fit self x y tol0 rel deg None = Inr m
              \<longrightarrow> ros_indices m = Some ?sd \<and> ros_args m = Some ?sd \<and> ros_errors m = Some []"
  proof (intro allI impI)
    fix m assume "greedy fit self x y tol0 rel deg None = Inr m"
    from greedy_InrD [OF this] obtain s idx a e t where
      "u_greedy fit x y tol0 rel deg None = Inr (s, idx, a, e, t)"
      and m: "ros_indices m = Some idx" "ros_args m = Some a" "ros_errors m = Some e"
      by auto
    with u m show "ros_indices m = Some ?sd \<and> ros_args m = Some ?sd \<and> ros_errors m = Some []"
      by blast
  qed
  have big: "3 \<le> deg \<longrightarrow> \<not> distinct ?sd"
    using boundary_seed_large [OF assms] by blast
  have small: "\<forall>t. (deg = 1 \<or> deg = 2) \<and> length x = length y \<and> sorted_wrt (<) x
              \<and> accepts_increasing fit deg \<and> effective_tol y tol0 rel = Inr t
            \<longrightarrow> (\<exists>s. u_greedy fit x y tol0 rel deg None = Inr (s, ?sd, ?sd, [], t))
              \<and> (\<exists>m. greedy fit self x y tol0 rel deg None = Inr m
                    \<and> ros_indices m = Some ?sd \<and> ros_args m = Some ?sd
                    \<and> ros_errors m = Some [] \<and> ros_size m = Some (deg + 1))"
  proof (intro allI impI)
    fix t
    assume h: "(deg = 1 \<or> deg = 2) \<and> length x = length y \<and> sorted_wrt (<) x
              \<and> accepts_increasing fit deg \<and> effective_tol y tol0 rel = Inr t"
    then have d: "deg = 1 \<or> deg = 2" and len: "length x = length y" and inc: "sorted_wrt (<) x"
      and acc: "accepts_increasing fit deg" and tl: "effective_tol y tol0 rel = Inr t"
      by simp_all
    from d assms have ne: "x \<noteq> []" by auto
    have ds: "distinct ?sd" by (rule boundary_seed_small [OF assms d])
    have rg: "\<forall>i\<in>set ?sd. 0 \<le> i \<and> i < int (length x)"
      using u_seed_default_range [OF ne, of deg] by auto
    have ln: "int (length ?sd) = deg + 1" using d by (auto simp: u_seed_default_length)
    then have dl: "deg < int (length ?sd)" by simp
    from fit_knots_accepts [OF acc inc len u_seed_default_sorted ds rg dl]
    obtain s where s: "fit_knots fit x y deg ?sd = Inr s" ..
    have l': "greedy_loop fit x y deg t ?st0 = Inr ?st0" by (rule l)
    have s': "fit_knots fit x y deg (indices ?st0) = Inr s" using s by (simp add: greedy_start_simps)
    from u_greedy_eq [OF tl l' s']
    have ug: "u_greedy fit x y tol0 rel deg None = Inr (s, ?sd, ?sd, [], t)"
      by (simp add: greedy_start_simps)
    from rg have "\<forall>i\<in>set ?sd. - int (length x) \<le> i \<and> i < int (length x)" by auto
    from np_take_in_range [OF this] obtain X where X: "np_take x ?sd = Inr X" ..
    from rg len have "\<forall>i\<in>set ?sd. - int (length y) \<le> i \<and> i < int (length y)" by auto
    from np_take_in_range [OF this] obtain Y where Y: "np_take y ?sd = Inr Y" ..
    have nn: "?sd \<noteq> []" using ln d by auto
    from greedy_eq [OF ug X Y nn, of self] ln
    have "\<exists>m. greedy fit self x y tol0 rel deg None = Inr m
                    \<and> ros_indices m = Some ?sd \<and> ros_args m = Some ?sd
                    \<and> ros_errors m = Some [] \<and> ros_size m = Some (deg + 1)"
      by simp
    with ug show "(\<exists>s. u_greedy fit x y tol0 rel deg None = Inr (s, ?sd, ?sd, [], t))
              \<and> (\<exists>m. greedy fit self x y tol0 rel deg None = Inr m
                    \<and> ros_indices m = Some ?sd \<and> ros_args m = Some ?sd
                    \<and> ros_errors m = Some [] \<and> ros_size m = Some (deg + 1))"
      by blast
  qed
  have "?sd = indices ?st0" by (simp add: greedy_start_simps)
  with l [of tol] r u g big small show ?thesis by (intro conjI)
qed

text \<open>Degree 2 on three points: the seed is 0, 1, 2.\<close>

theorem boundary_no_pass_witness:
  "int (length [0, 1, 2::real]) = 2 + 1
   \<and> length [0, 1, 2::real] = length [1, 4, 9::real] \<and> sorted_wrt (<) [0, 1, 2::real]
   \<and> accepts_increasing linear_fit 2
   \<and> effective_tol [1, 4, 9] (1 / 1000000) False = Inr (1 / 1000000)
   \<and> fst (u_seed [0, 1, 2::real] 2 None) = [0, 1, 2]
   \<and> greedy_loop linear_fit [0, 1, 2] [1, 4, 9] 2 (1 / 1000000) (greedy_start [0, 1, 2::real] 2 None)
       = Inr \<lparr>flag = 0, ctr = 4, indices = [0, 1, 2], args = [0, 1, 2], errors = []\<rparr>
   \<and> (\<exists>s. u_greedy linear_fit [0, 1, 2] [1, 4, 9] (1 / 1000000) False 2 None
          = Inr (s, [0, 1, 2], [0, 1, 2], [], 1 / 1000000))
   \<and> (\<exists>m. greedy linear_fit (blank 2 False) [0, 1, 2] [1, 4, 9] (1 / 1000000) False 2 None = Inr m
        \<and> ros_indices m = Some [0, 1, 2] \<and> ros_args m = Some [0, 1, 2]
        \<and> ros_errors m = Some [] \<and> ros_size m = Some 3)"
proof -
  have h: "int (length [0, 1, 2::real]) = 2 + 1" by simp
  have sd: "fst (u_seed [0, 1, 2::real] 2 None) = [0, 1, 2]" by (simp add: u_seed_def seed_f_def)
  have st: "greedy_start [0, 1, 2::real] 2 None
      = \<lparr>flag = 0, ctr = 4, indices = [0, 1, 2], args = [0, 1, 2], errors = []\<rparr>"
    by (simp add: greedy_start_def u_seed_def seed_f_def)
  have len: "length [0, 1, 2::real] = length [1, 4, 9::real]" and inc: "sorted_wrt (<) [0, 1, 2::real]"
    by simp_all
  have tl: "effective_tol [1, 4, 9] (1 / 1000000) False = Inr (1 / 1000000)"
    by (rule effective_tol_abs)
  note t = boundary_no_pass [OF h, where fit = linear_fit and y = "[1, 4, 9]"
      and tol = "1 / 1000000" and ?tol0.0 = "1 / 1000000" and self = "blank 2 False" and rel = False]
  from t have l: "greedy_loop linear_fit [0, 1, 2] [1, 4, 9] 2 (1 / 1000000)
       (greedy_start [0, 1, 2::real] 2 None)
       = Inr \<lparr>flag = 0, ctr = 4, indices = [0, 1, 2], args = [0, 1, 2], errors = []\<rparr>"
    unfolding st by blast
  have hy: "((2::int) = 1 \<or> (2::int) = 2) \<and> length [0, 1, 2::real] = length [1, 4, 9::real]
      \<and> sorted_wrt (<) [0, 1, 2::real] \<and> accepts_increasing linear_fit 2
      \<and> effective_tol [1, 4, 9] (1 / 1000000) False = Inr (1 / 1000000)"
    using linear_fit_accepts [of 2] tl by simp
  note r = t [THEN conjunct2, THEN conjunct2, THEN conjunct2, THEN conjunct2, THEN conjunct2,
      THEN conjunct2, rule_format, OF hy, unfolded sd]
  from r have u: "\<exists>s. u_greedy linear_fit [0, 1, 2] [1, 4, 9] (1 / 1000000) False 2 None
          = Inr (s, [0, 1, 2], [0, 1, 2], [], 1 / 1000000)"
    by (rule conjunct1)
  from r have g: "\<exists>m. greedy linear_fit (blank 2 False) [0, 1, 2] [1, 4, 9] (1 / 1000000) False 2 None = Inr m
        \<and> ros_indices m = Some [0, 1, 2] \<and> ros_args m = Some [0, 1, 2]
        \<and> ros_errors m = Some [] \<and> ros_size m = Some 3"
    by simp
  from h len inc linear_fit_accepts [of 2] tl sd l u g show ?thesis by (intro conjI)
qed

text \<open>The claim as the specification states it has every such reduction return the seed.
  Degree 5 on six points has the seed 0, 0, 1, 3, 4, 5; the fitter is handed the first
  point twice, and the reduction ends with its error and returns nothing.\<close>

theorem boundary_raises_counterexample:
  "int (length [0, 1, 2, 3, 4, 5::real]) = 5 + 1
   \<and> fst (u_seed [0, 1, 2, 3, 4, 5::real] 5 None) = [0, 0, 1, 3, 4, 5]
   \<and> u_greedy linear_fit [0, 1, 2, 3, 4, 5] [0, 1, 4, 9, 16, 25] (1 / 1000000) False 5 None
       = Inl FitError
   \<and> greedy linear_fit (blank 5 False) [0, 1, 2, 3, 4, 5] [0, 1, 4, 9, 16, 25] (1 / 1000000) False 5 None
       = Inl FitError"
proof -
  have "fst (u_seed [0, 1, 2, 3, 4, 5::real] 5 None) = [0, 0, 1, 3, 4, 5]"
    by (simp add: u_seed_def seed_f_def upto.simps)
  moreover have "greedy linear_fit (blank 5 False) [0, 1, 2, 3, 4, 5] [0, 1, 4, 9, 16, 25]
       (1 / 1000000) False 5 None = Inl FitError"
    by (simp add: greedy_def hex_greedy bind_err_simps)
  ultimately show ?thesis using hex_greedy by simp
qed

subsection \<open>C10: the constructor without abscissas\<close>

text \<open>
  C10. Given \<open>y\<close> and no \<open>x\<close>, \<^verbatim>\<open>__init__\<close> is \<^verbatim>\<open>greedy\<close> on the abscissas
  \<open>0, 1, \<dots>, length y - 1\<close>. These are as many as \<open>y\<close> has entries, and the constructor
  does not fail with the error of unequal sizes.
\<close>

theorem init_default_abscissas:
  "init fit None (Some y) deg tol rel seeds
     = greedy fit (blank deg rel) (map real [0..<length y]) y tol rel deg seeds
   \<and> length (map real [0..<length y]) = length y
   \<and> init fit None (Some y) deg tol rel seeds \<noteq> Inl SizesNotEqual"
proof -
  have e: "init fit None (Some y) deg tol rel seeds
     = greedy fit (blank deg rel) (map real [0..<length y]) y tol rel deg seeds"
    by (simp add: init_def)
  have "greedy fit (blank deg rel) (map real [0..<length y]) y tol rel deg seeds \<noteq> Inl SizesNotEqual"
    using greedy_error [of fit "blank deg rel" "map real [0..<length y]" y tol rel deg seeds SizesNotEqual]
    by auto
  with e show ?thesis by simp
qed

text \<open>The ordinates 0, 3, 0, 3, 0 without abscissas: the run on five points.\<close>

theorem init_default_abscissas_witness:
  "init linear_fit None (Some [0, 3, 0, 3, 0]) 1 (5 / 2) False None
     = greedy linear_fit (blank 1 False) [0, 1, 2, 3, 4] [0, 3, 0, 3, 0] (5 / 2) False 1 None
   \<and> (\<exists>m. init linear_fit None (Some [0, 3, 0, 3, 0]) 1 (5 / 2) False None = Inr m
        \<and> ros_X m = Some [0, 1, 4] \<and> ros_Y m = Some [0, 3, 0])"
proof -
  have "map real [0..<length [0, 3, 0, 3, 0::real]] = [0, 1, 2, 3, 4]" by (simp add: upt_rec)
  with init_default_abscissas [of linear_fit "[0, 3, 0, 3, 0]" 1 "5 / 2" False None]
  have "init linear_fit None (Some [0, 3, 0, 3, 0]) 1 (5 / 2) False None
     = greedy linear_fit (blank 1 False) [0, 1, 2, 3, 4] [0, 3, 0, 3, 0] (5 / 2) False 1 None"
    by simp
  with zz_greedy show ?thesis by auto
qed

end
